theory Spec2Isabelle
  imports
    Complex_Main
    "HOL-Library.Char_ord"
    "HOL-Library.List_Lexorder"
    "HOL-Library.Product_Lexorder"
begin

section \<open>Data model\<close>

text \<open>
  The scripts under \<open>scripts/validation\<close> read three tables and reduce them with pandas and
  numpy. A table (DataFrame) is modelled as the list of its rows, a row as a record of the
  columns the code reads, a column (Series, ndarray) as a list.

  A float64 cell is either NaN or a number. Numbers are modelled as reals; the infinities
  and the sign of zero are not modelled.
\<close>

datatype fl = NaN | Fin real

text \<open>Comparisons of numpy: every comparison with NaN is false.\<close>

fun fl_le :: "fl \<Rightarrow> fl \<Rightarrow> bool" where
  "fl_le (Fin a) (Fin b) = (a \<le> b)"
| "fl_le _ _ = False"

fun fl_lt :: "fl \<Rightarrow> fl \<Rightarrow> bool" where
  "fl_lt (Fin a) (Fin b) = (a < b)"
| "fl_lt _ _ = False"

fun isnan :: "fl \<Rightarrow> bool" where
  "isnan NaN = True"
| "isnan (Fin _) = False"

text \<open>
  Every float64 operation of numpy returns the rounded exact result. The rounding is a
  parameter \<open>r\<close> of the model: \<open>exact\<close> is arithmetic without rounding error, \<open>b64\<close>
  (below) is IEEE 754 binary64 round-to-nearest-even. An operation with a NaN operand gives
  NaN. A division by zero (inf or nan in numpy) is given NaN; no divisor in the code is
  zero: each is a positive count or is tested first.
\<close>

definition exact :: "real \<Rightarrow> real" where
  "exact x = x"

text \<open>
  binary64 rounding, to nearest with ties to even: a number with exponent \<open>e\<close>
  (\<open>2 ^ e \<le> |x| < 2 ^ (e + 1)\<close>) is rounded to a multiple of \<open>2 ^ (e - 52)\<close>, and below
  \<open>2 ^ - 1022\<close> to a multiple of \<open>2 ^ - 1074\<close> (the subnormal numbers). A result beyond
  the largest finite number is not turned into an infinity.
\<close>

definition round_half_even :: "real \<Rightarrow> int" where
  "round_half_even y =
     (let f = \<lfloor>y\<rfloor>; d = y - of_int f
      in if d < 1 / 2 then f else if 1 / 2 < d then f + 1 else if even f then f else f + 1)"

definition b64 :: "real \<Rightarrow> real" where
  "b64 x =
     (if x = 0 then 0
      else let e = max \<lfloor>log 2 \<bar>x\<bar>\<rfloor> (- 1022);
               q = 2 powi (e - 52)
           in of_int (round_half_even (x / q)) * q)"

fun fadd :: "(real \<Rightarrow> real) \<Rightarrow> fl \<Rightarrow> fl \<Rightarrow> fl" where
  "fadd r (Fin a) (Fin b) = Fin (r (a + b))"
| "fadd r _ _ = NaN"

fun fsub :: "(real \<Rightarrow> real) \<Rightarrow> fl \<Rightarrow> fl \<Rightarrow> fl" where
  "fsub r (Fin a) (Fin b) = Fin (r (a - b))"
| "fsub r _ _ = NaN"

fun fmul :: "(real \<Rightarrow> real) \<Rightarrow> fl \<Rightarrow> fl \<Rightarrow> fl" where
  "fmul r (Fin a) (Fin b) = Fin (r (a * b))"
| "fmul r _ _ = NaN"

fun fdiv :: "(real \<Rightarrow> real) \<Rightarrow> fl \<Rightarrow> fl \<Rightarrow> fl" where
  "fdiv r (Fin a) (Fin b) = (if b = 0 then NaN else Fin (r (a / b)))"
| "fdiv r _ _ = NaN"

fun fsqrt :: "(real \<Rightarrow> real) \<Rightarrow> fl \<Rightarrow> fl" where
  "fsqrt r (Fin a) = (if a < 0 then NaN else Fin (r (sqrt a)))"
| "fsqrt r NaN = NaN"

text \<open>
  The key columns shared by the measurement table and the per-cycle statistics table, then
  one row of \<open>measurements_raw\<close> and one row of \<open>impedance_raw\<close>.
\<close>

record key_cols =
  cell_id :: string
  cycle_index :: int

record sample = key_cols +
  t_index :: int
  operation_type :: string
  Current_measured :: fl
  Voltage_measured :: fl
  Temperature_measured :: fl
  Capacity :: fl

record impedance_row =
  Re_col :: fl
  Rct_col :: fl

datatype error = ValueError string | KeyError string

section \<open>pandas and numpy operations on rows and integer columns\<close>

text \<open>
  \<open>df.groupby(keys, sort=True)\<close>: one group per distinct key, the groups in ascending key
  order, the rows of a group in the order they have in the frame.
\<close>

definition groupby :: "('r \<Rightarrow> 'k::linorder) \<Rightarrow> 'r list \<Rightarrow> ('k \<times> 'r list) list" where
  "groupby key df = map (\<lambda>k. (k, filter (\<lambda>r. key r = k) df)) (sort (remdups (map key df)))"

text \<open>
  \<open>df.sort_values(col)\<close>: the rows in ascending order of the column. The model keeps rows
  with equal keys in their stored order; pandas' default sort does not promise that, and no
  statement below depends on the order of such rows.
\<close>

definition sort_values :: "('r \<Rightarrow> 'k::linorder) \<Rightarrow> 'r list \<Rightarrow> 'r list" where
  "sort_values col df = sort_key col df"

text \<open>
  \<open>np.diff\<close> on an integer column: the consecutive differences. The cycle and time indices
  are modelled as unbounded integers; the source does not fix the width of the columns,
  and a difference of two sample indices of one cycle is far from any machine limit.
\<close>

fun np_diff :: "int list \<Rightarrow> int list" where
  "np_diff (a # b # xs) = (b - a) # np_diff (b # xs)"
| "np_diff _ = []"

definition np_any :: "bool list \<Rightarrow> bool" where
  "np_any bs = (True \<in> set bs)"

text \<open>\<open>meas[meas["operation_type"] == "discharge"]\<close> in \<open>main\<close>.\<close>

definition discharge_rows :: "'a sample_scheme list \<Rightarrow> 'a sample_scheme list" where
  "discharge_rows meas = filter (\<lambda>r. operation_type r = ''discharge'') meas"

section \<open>Consistency checks\<close>

definition group_key :: "'a key_cols_scheme \<Rightarrow> string \<times> int" where
  "group_key r = (cell_id r, cycle_index r)"

text \<open>
  \<open>time_monotonicity_violations\<close>: the loop over the groups is a left fold carrying the
  counter \<open>violations\<close>.
\<close>

definition time_monotonicity_violations :: "'a sample_scheme list \<Rightarrow> nat" where
  "time_monotonicity_violations meas_dis =
     foldl (\<lambda>violations (_, df).
              let t = map t_index (sort_values t_index df)
              in if np_any (map (\<lambda>d. d \<le> 0) (np_diff t)) then violations + 1 else violations)
           0 (groupby group_key meas_dis)"

text \<open>\<open>impedance_positivity\<close> returns a dictionary with three fixed keys: a record.\<close>

record impedance_counts =
  impedance_rows :: nat
  re_nonpos_count :: nat
  rct_nonpos_count :: nat

text \<open>\<open>(col <= 0).sum()\<close>: the number of cells that compare \<open><= 0\<close>.\<close>

definition count_nonpos :: "fl list \<Rightarrow> nat" where
  "count_nonpos col = length (filter (\<lambda>v. fl_le v (Fin 0)) col)"

definition impedance_positivity :: "impedance_row list \<Rightarrow> impedance_counts" where
  "impedance_positivity imp =
     (let re_nonpos = count_nonpos (map Re_col imp);
          rct_nonpos = count_nonpos (map Rct_col imp)
      in \<lparr> impedance_rows = length imp,
           re_nonpos_count = re_nonpos,
           rct_nonpos_count = rct_nonpos \<rparr>)"

text \<open>
  CHECK 6 of \<open>sanity_check_parquet_physical_v1.py\<close> computes the same two counts inline and
  prints them with the number of rows.
\<close>

definition sanity_check_6 :: "impedance_row list \<Rightarrow> nat \<times> nat \<times> nat" where
  "sanity_check_6 imp =
     (let re_nonpos = count_nonpos (map Re_col imp);
          rct_nonpos = count_nonpos (map Rct_col imp)
      in (re_nonpos, rct_nonpos, length imp))"

section \<open>Representative cycle selection\<close>


section \<open>numpy reductions on float columns\<close>

text \<open>
  \<open>np.sum\<close> starts from 0 and adds the elements to the accumulator. numpy adds from left to
  right for fewer than eight elements and in blocks beyond that; the model adds from left
  to right throughout.
\<close>

definition np_sum :: "(real \<Rightarrow> real) \<Rightarrow> fl list \<Rightarrow> fl" where
  "np_sum r xs = foldl (fadd r) (Fin 0) xs"

text \<open>\<open>np.mean\<close> of an array: the sum over the length; NaN (with a warning) when empty.\<close>

definition np_mean :: "(real \<Rightarrow> real) \<Rightarrow> fl list \<Rightarrow> fl" where
  "np_mean r xs = (if xs = [] then NaN else fdiv r (np_sum r xs) (Fin (real (length xs))))"

text \<open>
  \<open>np.std(a, ddof)\<close>: the mean, the deviations from it, their squares, the sum of the
  squares over \<open>max (n - ddof) 0\<close>, and the square root.
\<close>

definition np_std :: "(real \<Rightarrow> real) \<Rightarrow> nat \<Rightarrow> fl list \<Rightarrow> fl" where
  "np_std r ddof a =
     (let arrmean = fdiv r (np_sum r a) (Fin (real (length a)));
          x = map (\<lambda>v. fsub r v arrmean) a;
          x2 = map (\<lambda>d. fmul r d d) x;
          ret = np_sum r x2;
          rcount = max (int (length a) - int ddof) 0
      in fsqrt r (fdiv r ret (Fin (real_of_int rcount))))"

text \<open>
  \<open>np.min\<close> and \<open>np.max\<close> raise on an empty array and return NaN as soon as one element
  is NaN. \<open>np.nanmax\<close> reduces with \<open>fmax\<close>, which drops a NaN operand, so it is NaN only
  when every element is (numpy then warns and returns NaN).
\<close>

fun fl_minimum :: "fl \<Rightarrow> fl \<Rightarrow> fl" where
  "fl_minimum (Fin a) (Fin b) = Fin (min a b)"
| "fl_minimum _ _ = NaN"

fun fl_maximum :: "fl \<Rightarrow> fl \<Rightarrow> fl" where
  "fl_maximum (Fin a) (Fin b) = Fin (max a b)"
| "fl_maximum _ _ = NaN"

fun fl_fmax :: "fl \<Rightarrow> fl \<Rightarrow> fl" where
  "fl_fmax (Fin a) (Fin b) = Fin (max a b)"
| "fl_fmax NaN b = b"
| "fl_fmax a NaN = a"

definition zero_size :: "string \<Rightarrow> error" where
  "zero_size which =
     ValueError (''zero-size array to reduction operation '' @ which @ '' which has no identity'')"

fun np_min :: "fl list \<Rightarrow> error + fl" where
  "np_min [] = Inl (zero_size ''minimum'')"
| "np_min (x # xs) = Inr (foldl fl_minimum x xs)"

fun np_max :: "fl list \<Rightarrow> error + fl" where
  "np_max [] = Inl (zero_size ''maximum'')"
| "np_max (x # xs) = Inr (foldl fl_maximum x xs)"

fun np_nanmax :: "fl list \<Rightarrow> error + fl" where
  "np_nanmax [] = Inl (zero_size ''fmax'')"
| "np_nanmax (x # xs) = Inr (foldl fl_fmax x xs)"

text \<open>\<open>np.diff\<close> on a float column.\<close>

fun np_diff_fl :: "(real \<Rightarrow> real) \<Rightarrow> fl list \<Rightarrow> fl list" where
  "np_diff_fl r (a # b # xs) = fsub r b a # np_diff_fl r (b # xs)"
| "np_diff_fl r _ = []"

text \<open>A boolean array read as numbers, as \<open>np.mean\<close> does with \<open>dv < 0\<close>.\<close>

definition of_bools :: "bool list \<Rightarrow> fl list" where
  "of_bools bs = map (\<lambda>b. Fin (if b then 1 else 0)) bs"

section \<open>Cycle statistics\<close>

definition voltage_monotonic_fraction :: "(real \<Rightarrow> real) \<Rightarrow> fl list \<Rightarrow> fl" where
  "voltage_monotonic_fraction r v =
     (let dv = np_diff_fl r v
      in if length dv = 0 then NaN
         else np_mean r (of_bools (map (\<lambda>d. fl_lt d (Fin 0)) dv)))"

record cycle_stats_row = key_cols +
  n_samples :: nat
  i_mean_A :: fl
  i_std_A :: fl
  v_mono_frac :: fl
  t_min_C :: fl
  t_max_C :: fl
  cap_max_Ah :: fl

text \<open>
  A loop that appends one row per element; an exception raised in the body ends it.
\<close>

fun collect :: "('a \<Rightarrow> error + 'b) \<Rightarrow> 'a list \<Rightarrow> error + 'b list" where
  "collect f [] = Inr []"
| "collect f (x # xs) =
     (case f x of
        Inl e \<Rightarrow> Inl e
      | Inr y \<Rightarrow> (case collect f xs of Inl e \<Rightarrow> Inl e | Inr ys \<Rightarrow> Inr (y # ys)))"

text \<open>The body of the loop of \<open>discharge_cycle_level_stats\<close>, for one group.\<close>

definition cycle_level_row ::
  "(real \<Rightarrow> real) \<Rightarrow> (string \<times> int) \<times> 'a sample_scheme list \<Rightarrow> error + cycle_stats_row" where
  "cycle_level_row r g =
     (let (cell, cyc) = fst g;
          df = sort_values t_index (snd g);
          i = map Current_measured df;
          v = map Voltage_measured df;
          temp = map Temperature_measured df;
          cap = map Capacity df
      in case np_min temp of
           Inl e \<Rightarrow> Inl e
         | Inr tmin \<Rightarrow>
        (case np_max temp of
           Inl e \<Rightarrow> Inl e
         | Inr tmax \<Rightarrow>
        (case np_nanmax cap of
           Inl e \<Rightarrow> Inl e
         | Inr capmax \<Rightarrow>
             Inr \<lparr> cell_id = cell,
                   cycle_index = cyc,
                   n_samples = length df,
                   i_mean_A = np_mean r i,
                   i_std_A = (if length i > 1 then np_std r 1 i else NaN),
                   v_mono_frac = voltage_monotonic_fraction r v,
                   t_min_C = tmin,
                   t_max_C = tmax,
                   cap_max_Ah = capmax \<rparr>)))"

definition discharge_cycle_level_stats ::
  "(real \<Rightarrow> real) \<Rightarrow> 'a sample_scheme list \<Rightarrow> error + cycle_stats_row list" where
  "discharge_cycle_level_stats r meas_dis = collect (cycle_level_row r) (groupby group_key meas_dis)"

section \<open>Rank correlation\<close>

text \<open>
  \<open>pd.Series(x).rank(method="average")\<close>: a value gets the mean of the positions its tie
  group occupies in the sorted column, that is the number of smaller values plus
  \<open>(k + 1) / 2\<close> for a group of \<open>k\<close>; a NaN keeps the rank NaN and is not counted. These are
  multiples of one half, taken without rounding.
\<close>

definition rank_average :: "fl list \<Rightarrow> fl list" where
  "rank_average xs =
     map (\<lambda>v. case v of
                 NaN \<Rightarrow> NaN
               | Fin a \<Rightarrow> Fin (real (length (filter (\<lambda>u. fl_lt u v) xs))
                              + (real (length (filter (\<lambda>u. u = v) xs)) + 1) / 2))
         xs"

text \<open>
  The product of two arrays: element by element when the lengths agree, a one-element
  array is broadcast, any other pair of lengths raises.
\<close>

definition np_mul :: "(real \<Rightarrow> real) \<Rightarrow> fl list \<Rightarrow> fl list \<Rightarrow> error + fl list" where
  "np_mul r xs ys =
     (if length xs = length ys then Inr (map2 (fmul r) xs ys)
      else if length ys = 1 then Inr (map (\<lambda>a. fmul r a (hd ys)) xs)
      else if length xs = 1 then Inr (map (\<lambda>b. fmul r (hd xs) b) ys)
      else Inl (ValueError ''operands could not be broadcast together''))"

text \<open>\<open>x - np.mean(x)\<close>.\<close>

definition centre :: "(real \<Rightarrow> real) \<Rightarrow> fl list \<Rightarrow> fl list" where
  "centre r xs = map (\<lambda>a. fsub r a (np_mean r xs)) xs"

definition sum_squares :: "(real \<Rightarrow> real) \<Rightarrow> fl list \<Rightarrow> fl" where
  "sum_squares r xs = np_sum r (map (\<lambda>a. fmul r a a) xs)"

definition spearman_corr :: "(real \<Rightarrow> real) \<Rightarrow> fl list \<Rightarrow> fl list \<Rightarrow> error + fl" where
  "spearman_corr r x0 y0 =
     (let x = rank_average x0;
          y = rank_average y0
      in if length x < 3 then Inr NaN
         else let x = centre r x;
                  y = centre r y;
                  denom = fsqrt r (fmul r (sum_squares r x) (sum_squares r y))
              in if denom = Fin 0 then Inr NaN
                 else (case np_mul r x y of
                         Inl e \<Rightarrow> Inl e
                       | Inr xy \<Rightarrow> Inr (fdiv r (np_sum r xy) denom)))"

text \<open>
  For a column without NaN the ranks and the centred values are plain reals; the
  statements about the correlation in exact arithmetic are made on these.
\<close>

definition ranks :: "real list \<Rightarrow> real list" where
  "ranks xs =
     map (\<lambda>a. real (length (filter (\<lambda>u. u < a) xs))
               + (real (length (filter (\<lambda>u. u = a) xs)) + 1) / 2) xs"

definition centred :: "real list \<Rightarrow> real list" where
  "centred xs = map (\<lambda>a. a - sum_list xs / real (length xs)) xs"

section \<open>Summary aggregation\<close>

text \<open>
  \<open>np.mean\<close> applied to a pandas Series calls the Series' own \<open>mean\<close>, which skips NaN:
  pandas puts 0 in the place of every NaN, sums, and divides by the number of cells that
  are not NaN; with no such cell the result is NaN.
\<close>

definition series_mean :: "(real \<Rightarrow> real) \<Rightarrow> fl list \<Rightarrow> fl" where
  "series_mean r col =
     (let vals = map (\<lambda>v. if isnan v then Fin 0 else v) col;
          count = length (filter (\<lambda>v. \<not> isnan v) col);
          the_sum = np_sum r vals
      in if count > 0 then fdiv r the_sum (Fin (real count)) else NaN)"

text \<open>
  \<open>np.median\<close> of an array without NaN: the mean of the middle element, or of the two
  middle elements, of the sorted array. \<open>np.nanmedian\<close> removes the NaN cells first and
  returns NaN when nothing is left.
\<close>

fun fin_values :: "fl list \<Rightarrow> real list" where
  "fin_values [] = []"
| "fin_values (NaN # xs) = fin_values xs"
| "fin_values (Fin a # xs) = a # fin_values xs"

definition np_median :: "(real \<Rightarrow> real) \<Rightarrow> real list \<Rightarrow> fl" where
  "np_median r a =
     (let part = sort a; sz = length part; index = sz div 2
      in if sz mod 2 = 1 then np_mean r (map Fin (take 1 (drop index part)))
         else np_mean r (map Fin (take 2 (drop (index - 1) part))))"

definition np_nanmedian :: "(real \<Rightarrow> real) \<Rightarrow> fl list \<Rightarrow> fl" where
  "np_nanmedian r col =
     (let a = fin_values col in if a = [] then NaN else np_median r a)"

record summary_row =
  Cell :: string
  N_discharge_cycles :: nat
  I_mean_A :: fl
  I_std_median_A :: fl
  V_monotonic_frac_mean :: fl
  Tmin_mean_C :: fl
  Tmax_mean_C :: fl
  capacity_cycle_monotonicity_indicator :: fl
  TimeMonotonicityViolations_allCells :: nat
  Re_nonpos_allRows :: nat
  Rct_nonpos_allRows :: nat
  Impedance_rows :: nat

text \<open>The body of the loop of \<open>build_cell_summary_table\<close>, for one cell.\<close>

definition summary_of_cell ::
  "(real \<Rightarrow> real) \<Rightarrow> nat \<Rightarrow> impedance_counts \<Rightarrow> string \<times> cycle_stats_row list
     \<Rightarrow> error + summary_row" where
  "summary_of_cell r time_viol imp_pos g =
     (let cell = fst g;
          sub = sort_values cycle_index (snd g);
          i_mean = series_mean r (map i_mean_A sub);
          i_std_median = np_nanmedian r (map i_std_A sub);
          v_mono_mean = series_mean r (map v_mono_frac sub);
          tmin_mean = series_mean r (map t_min_C sub);
          tmax_mean = series_mean r (map t_max_C sub);
          n_cycles = length (remdups (map cycle_index sub))
      in case spearman_corr r (map (\<lambda>s. Fin (real_of_int (cycle_index s))) sub)
                              (map cap_max_Ah sub) of
           Inl e \<Rightarrow> Inl e
         | Inr corr \<Rightarrow>
             Inr \<lparr> Cell = cell,
                   N_discharge_cycles = n_cycles,
                   I_mean_A = i_mean,
                   I_std_median_A = i_std_median,
                   V_monotonic_frac_mean = v_mono_mean,
                   Tmin_mean_C = tmin_mean,
                   Tmax_mean_C = tmax_mean,
                   capacity_cycle_monotonicity_indicator = corr,
                   TimeMonotonicityViolations_allCells = time_viol,
                   Re_nonpos_allRows = re_nonpos_count imp_pos,
                   Rct_nonpos_allRows = rct_nonpos_count imp_pos,
                   Impedance_rows = impedance_rows imp_pos \<rparr>)"

text \<open>
  \<open>build_cell_summary_table\<close>. The statistics frame is \<open>pd.DataFrame(rows)\<close>; built from
  no row at all it has no columns, and \<open>groupby("cell_id")\<close> then raises \<open>KeyError\<close>.
\<close>

definition build_cell_summary_table ::
  "(real \<Rightarrow> real) \<Rightarrow> cycle_stats_row list \<Rightarrow> 'a sample_scheme list \<Rightarrow> impedance_row list
     \<Rightarrow> error + summary_row list" where
  "build_cell_summary_table r cycle_stats meas_dis imp =
     (let time_viol = time_monotonicity_violations meas_dis;
          imp_pos = impedance_positivity imp
      in if cycle_stats = [] then Inl (KeyError ''cell_id'')
         else collect (summary_of_cell r time_viol imp_pos) (groupby cell_id cycle_stats))"

section \<open>Example tables\<close>

text \<open>Small concrete tables on which the statements below are evaluated.\<close>

definition mk_sample :: "string \<Rightarrow> int \<Rightarrow> int \<Rightarrow> fl \<Rightarrow> fl \<Rightarrow> fl \<Rightarrow> fl \<Rightarrow> sample" where
  "mk_sample cell cyc t i v temp cap =
     \<lparr> cell_id = cell, cycle_index = cyc, t_index = t, operation_type = ''discharge'',
       Current_measured = i, Voltage_measured = v, Temperature_measured = temp, Capacity = cap \<rparr>"

definition meas_example :: "sample list" where
  "meas_example =
     [mk_sample ''B0029'' 3 0 (Fin (-2)) (Fin 4) (Fin 24) NaN,
      mk_sample ''B0029'' 2 1 (Fin (-2)) (Fin 3) (Fin 25) NaN,
      mk_sample ''B0005'' 1 0 (Fin (-1)) (Fin 4) (Fin 24) (Fin 2),
      mk_sample ''B0029'' 2 0 (Fin (-2)) (Fin 4) (Fin 24) NaN,
      mk_sample ''B0029'' 2 1 (Fin (-2)) (Fin 3) (Fin 25) NaN]"

definition mk_stats ::
  "string \<Rightarrow> int \<Rightarrow> nat \<Rightarrow> fl \<Rightarrow> fl \<Rightarrow> fl \<Rightarrow> fl \<Rightarrow> fl \<Rightarrow> fl \<Rightarrow> cycle_stats_row" where
  "mk_stats cell cyc n imean istd vmono tmin tmax cap =
     \<lparr> cell_id = cell, cycle_index = cyc, n_samples = n, i_mean_A = imean, i_std_A = istd,
       v_mono_frac = vmono, t_min_C = tmin, t_max_C = tmax, cap_max_Ah = cap \<rparr>"

definition stats_example :: "cycle_stats_row list" where
  "stats_example =
     [mk_stats ''B0029'' 3 4 (Fin (-4)) (Fin 1) (Fin (1/2)) (Fin 22) (Fin 26) (Fin 2),
      mk_stats ''B0005'' 1 2 (Fin (-1)) (Fin 0) (Fin 1) (Fin 24) (Fin 24) (Fin 2),
      mk_stats ''B0029'' 2 1 (Fin (-2)) NaN NaN (Fin 24) (Fin 24) NaN]"

definition imp_example :: "impedance_row list" where
  "imp_example =
     [\<lparr>Re_col = Fin (5 / 100), Rct_col = Fin (7 / 100)\<rparr>,
      \<lparr>Re_col = Fin (- (1 / 100)), Rct_col = Fin 0\<rparr>,
      \<lparr>Re_col = Fin (3 / 100), Rct_col = NaN\<rparr>]"


definition summary_B0005 :: summary_row where
  "summary_B0005 =
     \<lparr> Cell = ''B0005'', N_discharge_cycles = 1, I_mean_A = Fin (-1), I_std_median_A = Fin 0,
       V_monotonic_frac_mean = Fin 1, Tmin_mean_C = Fin 24, Tmax_mean_C = Fin 24,
       capacity_cycle_monotonicity_indicator = NaN, TimeMonotonicityViolations_allCells = 1,
       Re_nonpos_allRows = 1, Rct_nonpos_allRows = 1, Impedance_rows = 3 \<rparr>"

definition summary_B0029 :: summary_row where
  "summary_B0029 =
     \<lparr> Cell = ''B0029'', N_discharge_cycles = 2, I_mean_A = Fin (-3), I_std_median_A = Fin 1,
       V_monotonic_frac_mean = Fin (1/2), Tmin_mean_C = Fin 23, Tmax_mean_C = Fin 25,
       capacity_cycle_monotonicity_indicator = NaN, TimeMonotonicityViolations_allCells = 1,
       Re_nonpos_allRows = 1, Rct_nonpos_allRows = 1, Impedance_rows = 3 \<rparr>"

section \<open>Impedance positivity\<close>

lemma count_nonpos_Cons:
  "count_nonpos (v # col) = count_nonpos col + (if fl_le v (Fin 0) then 1 else 0)"
  by (simp add: count_nonpos_def)

text \<open>
  C6. Impedance positivity yields two independent counters over the whole impedance table:
  the number of rows with Re <= 0 and the number of rows with Rct <= 0. Each row adds to
  each counter on its own condition, so a row failing both adds one to both; the other
  script's CHECK 6 computes the same counts; and Re = [0.05, -0.01, 0.03] gives an Re count
  of exactly 1 whatever the Rct cells are.
\<close>

theorem impedance_positivity_counts:
  "re_nonpos_count (impedance_positivity imp) = length (filter (\<lambda>r. fl_le (Re_col r) (Fin 0)) imp)
   \<and> rct_nonpos_count (impedance_positivity imp) = length (filter (\<lambda>r. fl_le (Rct_col r) (Fin 0)) imp)
   \<and> impedance_rows (impedance_positivity imp) = length imp
   \<and> re_nonpos_count (impedance_positivity (row # imp))
       = re_nonpos_count (impedance_positivity imp) + (if fl_le (Re_col row) (Fin 0) then 1 else 0)
   \<and> rct_nonpos_count (impedance_positivity (row # imp))
       = rct_nonpos_count (impedance_positivity imp) + (if fl_le (Rct_col row) (Fin 0) then 1 else 0)
   \<and> sanity_check_6 imp = (re_nonpos_count (impedance_positivity imp),
                            rct_nonpos_count (impedance_positivity imp), length imp)
   \<and> re_nonpos_count (impedance_positivity
        [\<lparr>Re_col = Fin (5 / 100), Rct_col = a\<rparr>,
         \<lparr>Re_col = Fin (- (1 / 100)), Rct_col = b\<rparr>,
         \<lparr>Re_col = Fin (3 / 100), Rct_col = c\<rparr>]) = 1"
  by (simp add: impedance_positivity_def sanity_check_6_def count_nonpos_def filter_map o_def)

section \<open>Time monotonicity\<close>














section \<open>Loops that collect rows\<close>

lemma collect_Inr_iff:
  "collect f xs = Inr ys \<longleftrightarrow> map f xs = map Inr ys"
proof (induction xs arbitrary: ys)
  case Nil
  then show ?case by auto
next
  case (Cons x xs)
  show ?case
  proof (cases "f x")
    case (Inl e)
    then show ?thesis by (cases ys) auto
  next
    case (Inr y)
    show ?thesis
    proof (cases "collect f xs")
      case (Inl e)
      with Cons.IH[of "tl ys"] Inr show ?thesis by (cases ys) auto
    next
      case r: (Inr zs)
      with Cons.IH[of zs] Cons.IH[of "tl ys"] Inr show ?thesis by (cases ys) auto
    qed
  qed
qed

lemma collect_total:
  assumes "\<And>x. x \<in> set xs \<Longrightarrow> \<exists>y. f x = Inr y"
  shows "\<exists>ys. collect f xs = Inr ys"
  using assms
proof (induction xs)
  case Nil
  then show ?case by simp
next
  case (Cons x xs)
  then obtain y ys where "f x = Inr y" "collect f xs = Inr ys"
    by (meson list.set_intros)
  then show ?case by simp
qed

lemma collect_member:
  assumes "collect f xs = Inr ys" "y \<in> set ys"
  shows "\<exists>x\<in>set xs. f x = Inr y"
proof -
  from assms(1) have "map f xs = map Inr ys"
    by (simp add: collect_Inr_iff)
  then have "set (map f xs) = set (map Inr ys)" by simp
  with assms(2) have "Inr y \<in> f ` set xs" by auto
  then show ?thesis by (auto simp: image_iff)
qed

lemma spearman_corr_same_length:
  "length x0 = length y0 \<Longrightarrow> \<exists>c. spearman_corr r x0 y0 = Inr c"
  by (simp add: spearman_corr_def np_mul_def rank_average_def centre_def Let_def)

lemma summary_of_cell_total: "\<exists>row. summary_of_cell r tv ip g = Inr row"
proof -
  obtain c where "spearman_corr r (map (\<lambda>s. Fin (real_of_int (cycle_index s))) (sort_values cycle_index (snd g)))
                              (map cap_max_Ah (sort_values cycle_index (snd g))) = Inr c"
    using spearman_corr_same_length[of "map (\<lambda>s. Fin (real_of_int (cycle_index s))) (sort_values cycle_index (snd g))" "map cap_max_Ah (sort_values cycle_index (snd g))" r]
    by auto
  then show ?thesis
    by (simp add: summary_of_cell_def Let_def)
qed

lemma summary_of_cell_counters:
  assumes "summary_of_cell r tv ip g = Inr row"
  shows "TimeMonotonicityViolations_allCells row = tv"
    and "Re_nonpos_allRows row = re_nonpos_count ip"
    and "Rct_nonpos_allRows row = rct_nonpos_count ip"
    and "Impedance_rows row = impedance_rows ip"
    and "Cell row = fst g"
  using assms by (auto simp: summary_of_cell_def Let_def split: sum.splits)

lemma build_cell_summary_table_total:
  assumes "cycle_stats \<noteq> []"
  shows "\<exists>rows. build_cell_summary_table r cycle_stats meas_dis imp = Inr rows"
proof -
  have "\<exists>rows. collect (summary_of_cell r (time_monotonicity_violations meas_dis)
                          (impedance_positivity imp)) (groupby cell_id cycle_stats) = Inr rows"
    by (rule collect_total) (rule summary_of_cell_total)
  with assms show ?thesis
    by (simp add: build_cell_summary_table_def Let_def split: if_splits)
qed

section \<open>Evaluation on the example tables\<close>

lemma time_violations_example: "time_monotonicity_violations meas_example = 1"
  by code_simp

lemma groupby_stats_example:
  "groupby cell_id stats_example =
     [(''B0005'', [mk_stats ''B0005'' 1 2 (Fin (-1)) (Fin 0) (Fin 1) (Fin 24) (Fin 24) (Fin 2)]),
      (''B0029'', [mk_stats ''B0029'' 3 4 (Fin (-4)) (Fin 1) (Fin (1/2)) (Fin 22) (Fin 26) (Fin 2),
                   mk_stats ''B0029'' 2 1 (Fin (-2)) NaN NaN (Fin 24) (Fin 24) NaN])]"
  by code_simp

lemma build_example:
  "build_cell_summary_table exact stats_example meas_example imp_example
     = Inr [summary_B0005, summary_B0029]"
proof -
  have ne: "stats_example \<noteq> []" by (simp add: stats_example_def)
  show ?thesis
  unfolding build_cell_summary_table_def time_violations_example groupby_stats_example Let_def
  using ne by (simp add: summary_of_cell_def mk_stats_def sort_values_def series_mean_def np_nanmedian_def
       np_median_def np_mean_def np_sum_def spearman_corr_def rank_average_def exact_def
       impedance_positivity_def imp_example_def count_nonpos_def summary_B0005_def
       summary_B0029_def)
qed

section \<open>Dataset-wide counters in the summary table\<close>

text \<open>
  C7. The time-violation count and the two impedance counts are computed once, over the
  whole measurement and impedance tables, and every row of the summary table carries
  them unchanged: any two rows of one table agree on the three counter columns.
\<close>

theorem summary_counters_broadcast:
  assumes "build_cell_summary_table r cycle_stats meas_dis imp = Inr rows"
    and "a \<in> set rows" and "b \<in> set rows"
  shows "TimeMonotonicityViolations_allCells a = time_monotonicity_violations meas_dis
       \<and> Re_nonpos_allRows a = re_nonpos_count (impedance_positivity imp)
       \<and> Rct_nonpos_allRows a = rct_nonpos_count (impedance_positivity imp)
       \<and> TimeMonotonicityViolations_allCells a = TimeMonotonicityViolations_allCells b
       \<and> Re_nonpos_allRows a = Re_nonpos_allRows b
       \<and> Rct_nonpos_allRows a = Rct_nonpos_allRows b"
proof -
  let ?f = "summary_of_cell r (time_monotonicity_violations meas_dis) (impedance_positivity imp)"
  from assms(1) have c: "collect ?f (groupby cell_id cycle_stats) = Inr rows"
    by (simp add: build_cell_summary_table_def Let_def split: if_splits)
  from collect_member[OF c assms(2)] obtain ga where ga: "?f ga = Inr a" by blast
  from collect_member[OF c assms(3)] obtain gb where gb: "?f gb = Inr b" by blast
  show ?thesis
    using summary_of_cell_counters[OF ga] summary_of_cell_counters[OF gb] by simp
qed

theorem summary_counters_broadcast_witness:
  "build_cell_summary_table exact stats_example meas_example imp_example
     = Inr [summary_B0005, summary_B0029]
   \<and> summary_B0005 \<noteq> summary_B0029
   \<and> TimeMonotonicityViolations_allCells summary_B0005 = time_monotonicity_violations meas_example
   \<and> Re_nonpos_allRows summary_B0005 = re_nonpos_count (impedance_positivity imp_example)
   \<and> Rct_nonpos_allRows summary_B0005 = rct_nonpos_count (impedance_positivity imp_example)
   \<and> TimeMonotonicityViolations_allCells summary_B0005 = TimeMonotonicityViolations_allCells summary_B0029
   \<and> Re_nonpos_allRows summary_B0005 = Re_nonpos_allRows summary_B0029
   \<and> Rct_nonpos_allRows summary_B0005 = Rct_nonpos_allRows summary_B0029"
proof -
  have neq: "summary_B0005 \<noteq> summary_B0029"
    by (simp add: summary_B0005_def summary_B0029_def)
  show ?thesis
    using summary_counters_broadcast[OF build_example, of summary_B0005 summary_B0029] neq
    by (simp add: build_example)
qed

section \<open>Representative cycle\<close>



section \<open>Groups and per-cycle rows\<close>

lemma groupby_member:
  assumes "(k, df) \<in> set (groupby key xs)"
  shows "df = filter (\<lambda>r. key r = k) xs" and "k \<in> key ` set xs" and "df \<noteq> []"
proof -
  from assms show 1: "df = filter (\<lambda>r. key r = k) xs" and 2: "k \<in> key ` set xs"
    by (auto simp: groupby_def)
  from 2 obtain x where "x \<in> set xs" "key x = k" by auto
  then have "x \<in> set df" using 1 by simp
  then show "df \<noteq> []" by auto
qed

lemma groupby_intro:
  assumes "x \<in> set xs"
  shows "(key x, filter (\<lambda>r. key r = key x) xs) \<in> set (groupby key xs)"
  using assms by (force simp: groupby_def image_iff)

lemma collect_member_rev:
  assumes "collect f xs = Inr ys" "x \<in> set xs"
  shows "\<exists>y\<in>set ys. f x = Inr y"
proof -
  from assms(1) have "map f xs = map Inr ys"
    by (simp add: collect_Inr_iff)
  then have "set (map f xs) = set (map Inr ys)" by simp
  with assms(2) have "f x \<in> Inr ` set ys" by auto
  then show ?thesis by (auto simp: image_iff)
qed

lemma cycle_level_row_nonempty:
  assumes "snd g \<noteq> []"
  shows "\<exists>tmin tmax capmax.
      np_min (map Temperature_measured (sort_values t_index (snd g))) = Inr tmin
    \<and> np_max (map Temperature_measured (sort_values t_index (snd g))) = Inr tmax
    \<and> np_nanmax (map Capacity (sort_values t_index (snd g))) = Inr capmax
    \<and> cycle_level_row r g =
        Inr \<lparr> cell_id = fst (fst g),
              cycle_index = snd (fst g),
              n_samples = length (sort_values t_index (snd g)),
              i_mean_A = np_mean r (map Current_measured (sort_values t_index (snd g))),
              i_std_A = (if length (map Current_measured (sort_values t_index (snd g))) > 1
                         then np_std r 1 (map Current_measured (sort_values t_index (snd g))) else NaN),
              v_mono_frac = voltage_monotonic_fraction r (map Voltage_measured (sort_values t_index (snd g))),
              t_min_C = tmin,
              t_max_C = tmax,
              cap_max_Ah = capmax \<rparr>"
proof -
  let ?df = "sort_values t_index (snd g)"
  have "?df \<noteq> []" using assms
    by (metis length_0_conv length_sort sort_values_def)
  then obtain s ss where df: "?df = s # ss" by (cases ?df) auto
  show ?thesis
    by (simp add: cycle_level_row_def Let_def df case_prod_beta)
qed

lemma cycle_level_row_total:
  "snd g \<noteq> [] \<Longrightarrow> \<exists>row. cycle_level_row r g = Inr row"
  using cycle_level_row_nonempty[of g r] by blast

lemma discharge_cycle_level_stats_total:
  "\<exists>rows. discharge_cycle_level_stats r meas_dis = Inr rows"
  unfolding discharge_cycle_level_stats_def
proof (rule collect_total)
  fix g assume "g \<in> set (groupby group_key meas_dis)"
  then have "snd g \<noteq> []"
    using groupby_member(3)[of "fst g" "snd g" group_key meas_dis] by simp
  then show "\<exists>y. cycle_level_row r g = Inr y" by (rule cycle_level_row_total)
qed

lemma foldl_fmax_NaN:
  "\<forall>x\<in>set xs. x = NaN \<Longrightarrow> foldl fl_fmax NaN xs = NaN"
  by (induction xs) auto

lemma np_nanmax_all_NaN:
  assumes "xs \<noteq> []" "\<forall>x\<in>set xs. x = NaN"
  shows "np_nanmax xs = Inr NaN"
proof -
  from assms obtain y ys where xs: "xs = y # ys" by (cases xs) auto
  with assms(2) have "y = NaN" "\<forall>x\<in>set ys. x = NaN" by auto
  then show ?thesis by (simp add: xs foldl_fmax_NaN)
qed

lemma cycle_level_row_key:
  assumes "cycle_level_row r g = Inr row"
  shows "group_key row = fst g"
  using assms
  by (auto simp: cycle_level_row_def Let_def group_key_def case_prod_beta split: sum.splits)

lemma cycle_level_row_all_nan_capacity:
  assumes "cycle_level_row r g = Inr row" "snd g \<noteq> []" "\<forall>s\<in>set (snd g). Capacity s = NaN"
  shows "cap_max_Ah row = NaN"
proof -
  let ?cap = "map Capacity (sort_values t_index (snd g))"
  have "?cap \<noteq> []" using assms(2)
    by (metis length_0_conv length_map length_sort sort_values_def)
  moreover have "\<forall>x\<in>set ?cap. x = NaN" using assms(3)
    by (simp add: sort_values_def)
  ultimately have "np_nanmax ?cap = Inr NaN" by (rule np_nanmax_all_NaN)
  with assms(1) show ?thesis
    by (auto simp: cycle_level_row_def Let_def case_prod_beta split: sum.splits)
qed

section \<open>NaN through the rank correlation\<close>

lemma fadd_NaN_left [simp]: "fadd r NaN b = NaN" by simp
lemma fmul_NaN_right [simp]: "fmul r a NaN = NaN" by (cases a) auto
lemma fsub_NaN_right [simp]: "fsub r a NaN = NaN" by (cases a) auto
lemma fadd_NaN_right [simp]: "fadd r a NaN = NaN" by (cases a) auto

lemma foldl_fadd_NaN: "foldl (fadd r) NaN xs = NaN"
  by (induction xs) auto

lemma np_sum_NaN:
  assumes "NaN \<in> set xs"
  shows "np_sum r xs = NaN"
proof -
  have "foldl (fadd r) a xs = NaN" for a
    using assms
  proof (induction xs arbitrary: a)
    case Nil
    then show ?case by simp
  next
    case (Cons x xs)
    show ?case
    proof (cases "x = NaN")
      case True
      then show ?thesis by (simp add: foldl_fadd_NaN)
    next
      case False
      with Cons show ?thesis by auto
    qed
  qed
  then show ?thesis by (simp add: np_sum_def)
qed

lemma np_mean_NaN: "NaN \<in> set xs \<Longrightarrow> np_mean r xs = NaN"
  by (auto simp: np_mean_def np_sum_NaN)

lemma rank_average_NaN: "NaN \<in> set xs \<Longrightarrow> NaN \<in> set (rank_average xs)"
  by (force simp: rank_average_def image_iff)

lemma length_rank_average [simp]: "length (rank_average xs) = length xs"
  by (simp add: rank_average_def)

lemma length_centre [simp]: "length (centre r xs) = length xs"
  by (simp add: centre_def)

lemma centre_NaN:
  "NaN \<in> set xs \<Longrightarrow> centre r xs = replicate (length xs) NaN"
  by (simp add: centre_def np_mean_NaN map_replicate_const)

lemma spearman_corr_NaN_input:
  assumes "length x0 = length y0" "NaN \<in> set y0"
  shows "spearman_corr r x0 y0 = Inr NaN"
proof (cases "length x0 < 3")
  case True
  then show ?thesis by (simp add: spearman_corr_def)
next
  case False
  let ?n = "length y0"
  let ?x = "centre r (rank_average x0)"
  have n: "0 < ?n" using assms(2) by (cases y0) auto
  have y: "centre r (rank_average y0) = replicate ?n NaN"
    using centre_NaN[OF rank_average_NaN[OF assms(2)], of r] by simp
  have inrep: "NaN \<in> set (replicate ?n NaN)" using n by simp
  have ss: "sum_squares r (replicate ?n NaN) = NaN"
    unfolding sum_squares_def by (rule np_sum_NaN) (use n in simp)
  have mul: "np_mul r ?x (replicate ?n NaN) = Inr (replicate ?n NaN)"
    using assms(1) by (simp add: np_mul_def map2_map_map[symmetric] zip_replicate2 map_replicate_const list_eq_iff_nth_eq)
  have sm: "np_sum r (replicate ?n NaN) = NaN"
    by (rule np_sum_NaN) (use n in simp)
  show ?thesis
    using False by (simp add: spearman_corr_def Let_def y ss mul sm)
qed

section \<open>Voltage monotonic fraction\<close>












section \<open>Capacity that is missing throughout a partition\<close>

lemma summary_of_cell_NaN_capacity:
  assumes "s \<in> set (snd g)" "cap_max_Ah s = NaN"
  shows "\<exists>row. summary_of_cell r tv ip g = Inr row \<and> Cell row = fst g
           \<and> capacity_cycle_monotonicity_indicator row = NaN"
proof -
  let ?sub = "sort_values cycle_index (snd g)"
  have "s \<in> set ?sub" using assms(1) by (simp add: sort_values_def)
  then have "NaN \<in> set (map cap_max_Ah ?sub)" using assms(2) by (force simp: image_iff)
  then have "spearman_corr r (map (\<lambda>s. Fin (real_of_int (cycle_index s))) ?sub) (map cap_max_Ah ?sub) = Inr NaN"
    by (intro spearman_corr_NaN_input) simp_all
  then show ?thesis
    by (simp add: summary_of_cell_def Let_def)
qed

text \<open>
  C10. For a partition (a group of the measurement table, so not empty) whose capacity
  cells are all NaN, the statistics are still produced for the whole table, the row of
  that partition has NaN as its maximum capacity (not zero, no failure), and the NaN is
  carried on: the summary table is still produced and the row of that cell has NaN as
  its capacity-versus-cycle indicator.
\<close>

theorem all_nan_capacity_propagates:
  assumes "(k, df) \<in> set (groupby group_key meas_dis)"
    and "\<forall>s\<in>set df. Capacity s = NaN"
  shows "\<exists>rows. discharge_cycle_level_stats r meas_dis = Inr rows
           \<and> (\<exists>row\<in>set rows. group_key row = k)
           \<and> (\<forall>row\<in>set rows. group_key row = k \<longrightarrow> cap_max_Ah row = NaN)
           \<and> (\<exists>srows. build_cell_summary_table r rows meas_dis imp = Inr srows
                 \<and> (\<exists>s\<in>set srows. Cell s = fst k
                        \<and> capacity_cycle_monotonicity_indicator s = NaN))"
proof -
  obtain rows where rows: "discharge_cycle_level_stats r meas_dis = Inr rows"
    using discharge_cycle_level_stats_total by blast
  then have col: "collect (cycle_level_row r) (groupby group_key meas_dis) = Inr rows"
    by (simp add: discharge_cycle_level_stats_def)
  from collect_member_rev[OF col assms(1)] obtain row0
    where row0: "row0 \<in> set rows" "cycle_level_row r (k, df) = Inr row0" by blast
  have k0: "group_key row0 = k" using cycle_level_row_key[OF row0(2)] by simp
  have nan: "cap_max_Ah row = NaN" if "row \<in> set rows" "group_key row = k" for row
  proof -
    from collect_member[OF col that(1)] obtain g
      where g: "g \<in> set (groupby group_key meas_dis)" "cycle_level_row r g = Inr row" by blast
    have "fst g = k" using cycle_level_row_key[OF g(2)] that(2) by simp
    then have gk: "(k, snd g) \<in> set (groupby group_key meas_dis)" using g(1)
      by (metis prod.collapse)
    have "snd g = df"
      using groupby_member(1)[OF gk] groupby_member(1)[OF assms(1)] by simp
    then show ?thesis
      using cycle_level_row_all_nan_capacity[OF g(2)] groupby_member(3)[OF assms(1)] assms(2)
      by simp
  qed
  have rne: "rows \<noteq> []" using row0(1) by auto
  obtain srows where srows: "build_cell_summary_table r rows meas_dis imp = Inr srows"
    using build_cell_summary_table_total[OF rne] by blast
  let ?f = "summary_of_cell r (time_monotonicity_violations meas_dis) (impedance_positivity imp)"
  from srows have scol: "collect ?f (groupby cell_id rows) = Inr srows"
    by (simp add: build_cell_summary_table_def Let_def split: if_splits)
  let ?g = "(cell_id row0, filter (\<lambda>x. cell_id x = cell_id row0) rows)"
  have gin: "?g \<in> set (groupby cell_id rows)"
    using groupby_intro[OF row0(1), of cell_id] .
  from collect_member_rev[OF scol gin] obtain s where s: "s \<in> set srows" "?f ?g = Inr s" by blast
  have "row0 \<in> set (snd ?g)" using row0(1) by simp
  from summary_of_cell_NaN_capacity[OF this nan[OF row0(1) k0], of r "time_monotonicity_violations meas_dis" "impedance_positivity imp"]
  have "Cell s = cell_id row0 \<and> capacity_cycle_monotonicity_indicator s = NaN"
    using s(2) by auto
  moreover have "cell_id row0 = fst k" using k0 by (auto simp: group_key_def)
  ultimately have "\<exists>s\<in>set srows. Cell s = fst k \<and> capacity_cycle_monotonicity_indicator s = NaN"
    using s(1) by auto
  with rows row0(1) k0 nan srows show ?thesis by blast
qed

lemma groupby_meas_example:
  "groupby group_key meas_example =
     [((''B0005'', 1), [mk_sample ''B0005'' 1 0 (Fin (-1)) (Fin 4) (Fin 24) (Fin 2)]),
      ((''B0029'', 2), [mk_sample ''B0029'' 2 1 (Fin (-2)) (Fin 3) (Fin 25) NaN,
                        mk_sample ''B0029'' 2 0 (Fin (-2)) (Fin 4) (Fin 24) NaN,
                        mk_sample ''B0029'' 2 1 (Fin (-2)) (Fin 3) (Fin 25) NaN]),
      ((''B0029'', 3), [mk_sample ''B0029'' 3 0 (Fin (-2)) (Fin 4) (Fin 24) NaN])]"
  by code_simp

theorem all_nan_capacity_witness:
  "((''B0029'', 3), [mk_sample ''B0029'' 3 0 (Fin (-2)) (Fin 4) (Fin 24) NaN])
      \<in> set (groupby group_key meas_example)
   \<and> (\<exists>rows. discharge_cycle_level_stats exact meas_example = Inr rows
           \<and> (\<exists>row\<in>set rows. group_key row = (''B0029'', 3))
           \<and> (\<forall>row\<in>set rows. group_key row = (''B0029'', 3) \<longrightarrow> cap_max_Ah row = NaN)
           \<and> (\<exists>srows. build_cell_summary_table exact rows meas_example imp_example = Inr srows
                 \<and> (\<exists>s\<in>set srows. Cell s = ''B0029''
                        \<and> capacity_cycle_monotonicity_indicator s = NaN)))"
proof -
  have g: "((''B0029'', 3), [mk_sample ''B0029'' 3 0 (Fin (-2)) (Fin 4) (Fin 24) NaN])
      \<in> set (groupby group_key meas_example)"
    by (simp add: groupby_meas_example)
  have c: "\<forall>s\<in>set [mk_sample ''B0029'' 3 0 (Fin (-2)) (Fin 4) (Fin 24) NaN]. Capacity s = NaN"
    by (simp add: mk_sample_def)
  from all_nan_capacity_propagates[OF g c, of exact imp_example] g show ?thesis by simp
qed

section \<open>Means and medians of the summary table\<close>

lemma masked_sum_eq:
  assumes r0: "r 0 = 0" and ri: "\<And>x. r (r x) = r x"
    and acc: "acc = NaN \<or> (\<exists>a. acc = Fin a \<and> r a = a)"
  shows "foldl (fadd r) acc (map (\<lambda>v. if isnan v then Fin 0 else v) col)
       = foldl (fadd r) acc (filter (\<lambda>v. \<not> isnan v) col)"
  using acc
proof (induction col arbitrary: acc)
  case Nil
  then show ?case by simp
next
  case (Cons v col)
  show ?case
  proof (cases v)
    case NaN
    have "fadd r acc (Fin 0) = acc"
      using Cons.prems by auto
    with NaN Cons show ?thesis by simp
  next
    case (Fin b)
    have "fadd r acc (Fin b) = NaN \<or> (\<exists>a. fadd r acc (Fin b) = Fin a \<and> r a = a)"
      using Cons.prems ri by auto
    from Cons.IH[OF this] Fin show ?thesis by simp
  qed
qed

lemma series_mean_skips_nan:
  assumes "r 0 = 0" and "\<And>x. r (r x) = r x"
  shows "series_mean r col = np_mean r (filter (\<lambda>v. \<not> isnan v) col)"
proof -
  have "np_sum r (map (\<lambda>v. if isnan v then Fin 0 else v) col)
      = np_sum r (filter (\<lambda>v. \<not> isnan v) col)"
    using masked_sum_eq[of r "Fin 0" col] assms by (simp add: np_sum_def)
  then show ?thesis
    by (simp add: series_mean_def np_mean_def Let_def)
qed

lemma summary_of_cell_fields:
  assumes "summary_of_cell r tv ip g = Inr row"
  shows "I_mean_A row = series_mean r (map i_mean_A (sort_values cycle_index (snd g)))"
    and "I_std_median_A row = np_nanmedian r (map i_std_A (sort_values cycle_index (snd g)))"
    and "V_monotonic_frac_mean row = series_mean r (map v_mono_frac (sort_values cycle_index (snd g)))"
    and "Tmin_mean_C row = series_mean r (map t_min_C (sort_values cycle_index (snd g)))"
    and "Tmax_mean_C row = series_mean r (map t_max_C (sort_values cycle_index (snd g)))"
  using assms by (auto simp: summary_of_cell_def Let_def split: sum.splits)

lemma np_median_exact:
  assumes "a \<noteq> []"
  shows "np_median exact a =
           (if odd (length a) then Fin (sort a ! (length a div 2))
            else Fin ((sort a ! (length a div 2 - 1) + sort a ! (length a div 2)) / 2))"
proof -
  let ?s = "sort a" and ?n = "length a"
  have n: "0 < ?n" using assms by simp
  show ?thesis
  proof (cases "odd ?n")
    case True
    then have m: "?n mod 2 = 1" by (simp add: odd_iff_mod_2_eq_one)
    have "?n div 2 < length ?s" using n by simp
    then have "take 1 (drop (?n div 2) ?s) = [?s ! (?n div 2)]"
      by (metis One_nat_def Cons_nth_drop_Suc take0 take_Suc_Cons)
    with True m show ?thesis
      by (simp add: np_median_def Let_def np_mean_def np_sum_def exact_def)
  next
    case False
    then have m: "?n mod 2 = 0" by simp
    have two: "2 \<le> ?n"
    proof (rule ccontr)
      assume "\<not> 2 \<le> ?n"
      moreover have "?n \<noteq> 0" using assms by simp
      ultimately have "?n = 1" by linarith
      with False show False by simp
    qed
    have i1: "?n div 2 - 1 < length ?s" and i2: "Suc (?n div 2 - 1) = ?n div 2"
      and i3: "?n div 2 < length ?s"
      using two by auto
    have "drop (?n div 2 - 1) ?s = ?s ! (?n div 2 - 1) # drop (?n div 2) ?s"
      using Cons_nth_drop_Suc[OF i1] i2 by simp
    moreover have "drop (?n div 2) ?s = ?s ! (?n div 2) # drop (Suc (?n div 2)) ?s"
      using Cons_nth_drop_Suc[OF i3] by simp
    ultimately have "take 2 (drop (?n div 2 - 1) ?s) = [?s ! (?n div 2 - 1), ?s ! (?n div 2)]"
      by (simp add: numeral_2_eq_2)
    with False m show ?thesis
      by (simp add: np_median_def Let_def np_mean_def np_sum_def exact_def)
  qed
qed

lemma exact_zero: "exact 0 = 0" and exact_idem: "exact (exact x) = exact x"
  by (simp_all add: exact_def)

text \<open>
  C1. A NaN in a column of a cell's per-cycle records is left out of the aggregate: each of
  the four means of the summary row (current mean, voltage monotonic fraction, minimum
  and maximum temperature) is the mean of the cells of the column that are not NaN, and
  the median of the current standard deviations is the median of the values that are not
  NaN. A NaN is neither counted as zero nor passed on, unless every cell of the column is
  NaN, in which case nothing is left and the aggregate is NaN. The records are those of
  the cell, in cycle order. This holds for every rounding that maps 0 to 0 and does not
  change an already rounded value.
\<close>

theorem summary_means_exclude_nan:
  assumes "r 0 = 0" and "\<And>x. r (r x) = r x"
    and "build_cell_summary_table r cycle_stats meas_dis imp = Inr rows"
    and "row \<in> set rows"
    and "sub = sort_values cycle_index (filter (\<lambda>s. cell_id s = Cell row) cycle_stats)"
  shows "I_mean_A row = np_mean r (filter (\<lambda>v. \<not> isnan v) (map i_mean_A sub))
       \<and> V_monotonic_frac_mean row = np_mean r (filter (\<lambda>v. \<not> isnan v) (map v_mono_frac sub))
       \<and> Tmin_mean_C row = np_mean r (filter (\<lambda>v. \<not> isnan v) (map t_min_C sub))
       \<and> Tmax_mean_C row = np_mean r (filter (\<lambda>v. \<not> isnan v) (map t_max_C sub))
       \<and> I_std_median_A row =
           (if fin_values (map i_std_A sub) = [] then NaN
            else np_median r (fin_values (map i_std_A sub)))
       \<and> set (map Fin (fin_values (map i_std_A sub))) = {v \<in> set (map i_std_A sub). \<not> isnan v}"
proof -
  let ?f = "summary_of_cell r (time_monotonicity_violations meas_dis) (impedance_positivity imp)"
  from assms(3) have c: "collect ?f (groupby cell_id cycle_stats) = Inr rows"
    by (simp add: build_cell_summary_table_def Let_def split: if_splits)
  from collect_member[OF c assms(4)] obtain g
    where g: "g \<in> set (groupby cell_id cycle_stats)" "?f g = Inr row" by blast
  have cell: "Cell row = fst g" using summary_of_cell_counters(5)[OF g(2)] .
  have "(fst g, snd g) \<in> set (groupby cell_id cycle_stats)" using g(1) by simp
  from groupby_member(1)[OF this]
  have sub: "sort_values cycle_index (snd g) = sub"
    using cell assms(5) by simp
  have fv: "set (map Fin (fin_values col)) = {v \<in> set col. \<not> isnan v}" for col
    by (induction col rule: fin_values.induct) auto
  note sk = series_mean_skips_nan[of r, OF assms(1,2)]
  show ?thesis
    using summary_of_cell_fields[OF g(2)]
      sk[of "map i_mean_A sub"] sk[of "map v_mono_frac sub"]
      sk[of "map t_min_C sub"] sk[of "map t_max_C sub"] fv[of "map i_std_A sub"]
    by (simp add: sub np_nanmedian_def Let_def)
qed

theorem summary_means_exclude_nan_witness:
  "build_cell_summary_table exact stats_example meas_example imp_example
     = Inr [summary_B0005, summary_B0029]
   \<and> map v_mono_frac (sort_values cycle_index (filter (\<lambda>s. cell_id s = ''B0029'') stats_example))
       = [NaN, Fin (1/2)]
   \<and> V_monotonic_frac_mean summary_B0029 = np_mean exact [Fin (1/2)]
   \<and> V_monotonic_frac_mean summary_B0029 = Fin (1/2)
   \<and> map i_std_A (sort_values cycle_index (filter (\<lambda>s. cell_id s = ''B0029'') stats_example))
       = [NaN, Fin 1]
   \<and> I_std_median_A summary_B0029 = np_median exact [1]
   \<and> I_std_median_A summary_B0029 = Fin 1
   \<and> I_mean_A summary_B0029 = Fin (-3)"
proof -
  let ?sub = "sort_values cycle_index (filter (\<lambda>s. cell_id s = ''B0029'') stats_example)"
  have inr: "summary_B0029 \<in> set [summary_B0005, summary_B0029]" by simp
  have sub: "?sub = sort_values cycle_index (filter (\<lambda>s. cell_id s = Cell summary_B0029) stats_example)"
    by (simp add: summary_B0029_def)
  have v: "map v_mono_frac ?sub = [NaN, Fin (1/2)]" and i: "map i_std_A ?sub = [NaN, Fin 1]"
    by (simp_all add: stats_example_def mk_stats_def sort_values_def)
  from summary_means_exclude_nan[OF exact_zero exact_idem build_example inr sub]
  show ?thesis
    by (simp add: v i build_example) (simp add: summary_B0029_def)
qed

section \<open>binary64 rounding\<close>

lemma floor_log2_eq:
  assumes "2 powi e \<le> x" "x < 2 powi (e + 1)"
  shows "\<lfloor>log 2 x\<rfloor> = e"
proof -
  have pos: "0 < x" using assms(1) by (smt (verit) zero_less_power_int)
  have "(2::real) powr real_of_int e = 2 powi e" and "(2::real) powr (real_of_int e + 1) = 2 powi (e + 1)"
    using powr_real_of_int'[of 2 e] powr_real_of_int'[of 2 "e + 1"] by (simp_all add: add.commute)
  then show ?thesis
    using assms pos by (simp add: floor_log_eq_powr_iff)
qed

lemma b64_normal:
  assumes "2 powi e \<le> \<bar>x\<bar>" "\<bar>x\<bar> < 2 powi (e + 1)" "- 1022 \<le> e"
  shows "b64 x = of_int (round_half_even (x / 2 powi (e - 52))) * 2 powi (e - 52)"
proof -
  have "x \<noteq> 0" using assms(1) by (smt (verit) zero_less_power_int)
  moreover have "\<lfloor>log 2 \<bar>x\<bar>\<rfloor> = e" using assms(1,2) by (rule floor_log2_eq)
  ultimately show ?thesis using assms(3) by (simp add: b64_def Let_def max_def)
qed

lemma round_half_even_of_int [simp]: "round_half_even (of_int m) = m"
  by (simp add: round_half_even_def)

lemma b64_representable:
  assumes "2 ^ 52 \<le> \<bar>m\<bar>" "\<bar>m\<bar> < 2 ^ 53" "- 1022 \<le> e"
  shows "b64 (of_int m * 2 powi (e - 52)) = of_int m * 2 powi (e - 52)"
proof -
  let ?x = "of_int m * 2 powi (e - 52) :: real"
  have q: "(2::real) powi (e - 52) > 0" by simp
  have ax: "\<bar>?x\<bar> = of_int \<bar>m\<bar> * 2 powi (e - 52)" by (simp add: abs_mult)
  have e1: "(2::real) powi e = 2 ^ 52 * 2 powi (e - 52)"
    using power_int_add[of "2::real" 52 "e - 52"] by simp
  have e2: "(2::real) powi (e + 1) = 2 ^ 53 * 2 powi (e - 52)"
    using power_int_add[of "2::real" 53 "e - 52"] by (simp add: add.commute)
  have "(2::real) ^ 52 \<le> of_int \<bar>m\<bar>" using assms(1) by (metis of_int_le_iff of_int_numeral of_int_power)
  then have lo: "2 powi e \<le> \<bar>?x\<bar>" unfolding ax e1 using q by (simp del: of_int_abs)
  have "of_int \<bar>m\<bar> < (2::real) ^ 53" using assms(2) by (metis of_int_less_iff of_int_numeral of_int_power)
  then have hi: "\<bar>?x\<bar> < 2 powi (e + 1)" unfolding ax e2 using q by (simp del: of_int_abs)
  show ?thesis
    by (simp add: b64_normal[OF lo hi assms(3)])
qed

















section \<open>Sample standard deviation of the current\<close>



lemma np_sum_exact: "np_sum exact (map Fin cs) = Fin (sum_list cs)"
proof -
  have "foldl (fadd exact) (Fin a) (map Fin cs) = Fin (a + sum_list cs)" for a
    by (induction cs arbitrary: a) (simp_all add: exact_def add.assoc)
  from this[of 0] show ?thesis by (simp add: np_sum_def)
qed

lemma np_mean_exact:
  "cs \<noteq> [] \<Longrightarrow> np_mean exact (map Fin cs) = Fin (sum_list cs / real (length cs))"
  by (simp add: np_mean_def np_sum_exact exact_def)






section \<open>Rank correlation in exact arithmetic\<close>

lemma length_ranks [simp]: "length (ranks xs) = length xs"
  by (simp add: ranks_def)

lemma length_centred [simp]: "length (centred xs) = length xs"
  by (simp add: centred_def)

lemma rank_average_Fin: "rank_average (map Fin xs) = map Fin (ranks xs)"
proof -
  have 1: "length (filter (\<lambda>u. fl_lt u (Fin a)) (map Fin xs)) = length (filter (\<lambda>u. u < a) xs)" for a
    by (simp add: filter_map o_def)
  have 2: "length (filter (\<lambda>u. u = Fin a) (map Fin xs)) = length (filter (\<lambda>u. u = a) xs)" for a
    by (simp add: filter_map o_def)
  show ?thesis
    unfolding rank_average_def ranks_def by (simp add: 1 2 del: length_filter_map)
qed

lemma centre_exact: "centre exact (map Fin xs) = map Fin (centred xs)"
proof (cases "xs = []")
  case True
  then show ?thesis by (simp add: centre_def centred_def)
next
  case False
  then show ?thesis
    by (simp add: centre_def centred_def np_mean_exact exact_def)
qed

lemma sum_squares_exact: "sum_squares exact (map Fin xs) = Fin (sum_list (map (\<lambda>a. a * a) xs))"
proof -
  have "map (\<lambda>a. fmul exact a a) (map Fin xs) = map Fin (map (\<lambda>a. a * a) xs)"
    by (simp add: exact_def)
  then show ?thesis
    unfolding sum_squares_def by (simp only: np_sum_exact)
qed

lemma sum_list_squares_nonneg: "0 \<le> sum_list (map (\<lambda>a. a * a) (xs :: real list))"
  by (rule sum_list_nonneg) auto

lemma spearman_corr_exact:
  assumes "length xs = length ys" "3 \<le> length xs"
  shows "spearman_corr exact (map Fin xs) (map Fin ys) =
     (let cx = centred (ranks xs); cy = centred (ranks ys);
          sxx = sum_list (map (\<lambda>a. a * a) cx);
          syy = sum_list (map (\<lambda>a. a * a) cy);
          sxy = sum_list (map2 (*) cx cy)
      in if sqrt (sxx * syy) = 0 then Inr NaN else Inr (Fin (sxy / sqrt (sxx * syy))))"
proof -
  let ?cx = "centred (ranks xs)" and ?cy = "centred (ranks ys)"
  let ?sxx = "sum_list (map (\<lambda>a. a * a) ?cx)" and ?syy = "sum_list (map (\<lambda>a. a * a) ?cy)"
  have nn: "\<not> ?sxx * ?syy < 0"
    using sum_list_squares_nonneg[of ?cx] sum_list_squares_nonneg[of ?cy]
    by (simp add: not_less)
  have denom: "fsqrt exact (fmul exact (sum_squares exact (map Fin ?cx)) (sum_squares exact (map Fin ?cy)))
       = Fin (sqrt (?sxx * ?syy))"
    using nn by (simp add: sum_squares_exact exact_def)
  have mul: "np_mul exact (map Fin ?cx) (map Fin ?cy) = Inr (map Fin (map2 (*) ?cx ?cy))"
    using assms(1) by (auto simp: np_mul_def exact_def zip_map_map)
  have l3: "\<not> length (map Fin (ranks xs)) < 3" using assms(2) by simp
  have sm: "np_sum exact (map Fin (map2 (*) ?cx ?cy)) = Fin (sum_list (map2 (*) ?cx ?cy))"
    by (rule np_sum_exact)
  have dv: "sqrt (?sxx * ?syy) \<noteq> 0 \<Longrightarrow>
      fdiv exact (Fin (sum_list (map2 (*) ?cx ?cy))) (Fin (sqrt (?sxx * ?syy)))
        = Fin (sum_list (map2 (*) ?cx ?cy) / sqrt (?sxx * ?syy))"
    by (simp add: exact_def)
  show ?thesis
  proof (cases "sqrt (?sxx * ?syy) = 0")
    case True
    then show ?thesis
      unfolding spearman_corr_def Let_def rank_average_Fin centre_exact denom
      using l3 by simp
  next
    case False
    then have "Fin (sqrt (?sxx * ?syy)) \<noteq> Fin 0" by simp
    then show ?thesis
      unfolding spearman_corr_def Let_def rank_average_Fin centre_exact denom mul
      using l3 False dv[OF False] by (simp only: if_False sm sum.case)
  qed
qed

lemma cauchy_schwarz_step:
  fixes A B C x y :: real
  assumes "C\<^sup>2 \<le> A * B" "0 \<le> A" "0 \<le> B"
  shows "(C + x * y)\<^sup>2 \<le> (A + x * x) * (B + y * y)"
proof -
  have "(2 * x * y * C)\<^sup>2 = 4 * (x * x) * (y * y) * C\<^sup>2"
    by (simp add: power2_eq_square algebra_simps)
  also have "\<dots> \<le> 4 * (x * x) * (y * y) * (A * B)"
    using assms(1) by (intro mult_left_mono) auto
  also have "\<dots> = 4 * (A * (y * y)) * (B * (x * x))" by simp
  also have "\<dots> \<le> (A * (y * y) + B * (x * x))\<^sup>2"
  proof -
    have "0 \<le> (A * (y * y) - B * (x * x))\<^sup>2" by simp
    then show ?thesis by (simp add: power2_eq_square algebra_simps)
  qed
  finally have "(2 * x * y * C)\<^sup>2 \<le> (A * (y * y) + B * (x * x))\<^sup>2" .
  moreover have "0 \<le> A * (y * y) + B * (x * x)" using assms(2,3) by simp
  ultimately have "2 * x * y * C \<le> A * (y * y) + B * (x * x)"
    by (rule power2_le_imp_le)
  moreover have "(C + x * y)\<^sup>2 = C\<^sup>2 + 2 * x * y * C + (x * x) * (y * y)"
    by (simp add: power2_eq_square algebra_simps)
  moreover have "(A + x * x) * (B + y * y) = A * B + (A * (y * y) + B * (x * x)) + (x * x) * (y * y)"
    by (simp add: algebra_simps)
  ultimately show ?thesis using assms(1) by linarith
qed

lemma cauchy_schwarz_list:
  fixes a b :: "real list"
  assumes "length a = length b"
  shows "(sum_list (map2 (*) a b))\<^sup>2 \<le> sum_list (map (\<lambda>x. x * x) a) * sum_list (map (\<lambda>x. x * x) b)"
  using assms
proof (induction a b rule: list_induct2)
  case Nil
  then show ?case by simp
next
  case (Cons x xs y ys)
  have "(sum_list (map2 (*) xs ys) + x * y)\<^sup>2
      \<le> (sum_list (map (\<lambda>x. x * x) xs) + x * x) * (sum_list (map (\<lambda>x. x * x) ys) + y * y)"
    using Cons.IH sum_list_squares_nonneg[of xs] sum_list_squares_nonneg[of ys]
    by (rule cauchy_schwarz_step)
  then show ?case by (simp add: add.commute)
qed

lemma filter_trichotomy:
  fixes a :: real
  shows "length (filter (\<lambda>u. u < a) xs) + length (filter (\<lambda>u. u = a) xs)
           + length (filter (\<lambda>u. a < u) xs) = length xs"
  by (induction xs) auto

lemma filter_below_mono:
  fixes a b :: real
  assumes "a < b"
  shows "length (filter (\<lambda>u. u < a) xs) + length (filter (\<lambda>u. u = a) xs)
           \<le> length (filter (\<lambda>u. u < b) xs)"
  using assms by (induction xs) auto

lemma ranks_nth:
  "i < length xs \<Longrightarrow>
     ranks xs ! i = real (length (filter (\<lambda>u. u < xs ! i) xs))
                     + (real (length (filter (\<lambda>u. u = xs ! i) xs)) + 1) / 2"
  by (simp add: ranks_def)

lemma rank_order_arith:
  fixes li ki lj kj :: real
  assumes "li + ki \<le> lj" "1 \<le> kj" "0 \<le> ki"
  shows "li + (ki + 1) / 2 < lj + (kj + 1) / 2"
  using assms by argo

lemma ranks_strict_mono:
  assumes "i < length xs" "j < length xs" "xs ! i < xs ! j"
  shows "ranks xs ! i < ranks xs ! j"
proof -
  let ?lo = "\<lambda>a. length (filter (\<lambda>u. u < a) xs)" and ?k = "\<lambda>a. length (filter (\<lambda>u. u = a) xs)"
  have "?lo (xs ! i) + ?k (xs ! i) \<le> ?lo (xs ! j)"
    using assms(3) by (rule filter_below_mono)
  then have 1: "real (?lo (xs ! i)) + real (?k (xs ! i)) \<le> real (?lo (xs ! j))"
    by (metis of_nat_add of_nat_le_iff)
  have "xs ! j \<in> set (filter (\<lambda>u. u = xs ! j) xs)" using assms(2) by simp
  then have "filter (\<lambda>u. u = xs ! j) xs \<noteq> []" by (metis empty_iff list.set(1))
  then have "1 \<le> ?k (xs ! j)" by (simp add: Suc_le_eq)
  then have 2: "1 \<le> real (?k (xs ! j))" by (metis of_nat_1 of_nat_le_iff)
  have 3: "0 \<le> real (?k (xs ! i))" by simp
  have "real (?lo (xs ! i)) + (real (?k (xs ! i)) + 1) / 2
          < real (?lo (xs ! j)) + (real (?k (xs ! j)) + 1) / 2"
    using 1 2 3 by (rule rank_order_arith)
  then show ?thesis
    using assms(1,2) by (simp only: ranks_nth)
qed

lemma centred_replicate: "centred (replicate n v) = replicate n 0"
proof (cases "n = 0")
  case True
  then show ?thesis by (simp add: centred_def)
next
  case False
  then have "sum_list (replicate n v) / real (length (replicate n v)) = v"
    by (simp add: sum_list_replicate)
  then show ?thesis
    unfolding centred_def by (simp add: map_replicate_const)
qed

lemma ranks_constant:
  assumes "\<forall>a\<in>set xs. a = c"
  shows "ranks xs = replicate (length xs) ((real (length xs) + 1) / 2)"
proof -
  have xs: "xs = replicate (length xs) c"
    using assms by (simp add: replicate_length_same)
  have "\<And>a. a \<in> set xs \<Longrightarrow> filter (\<lambda>u. u < a) xs = []"
    unfolding filter_empty_conv using assms by (metis less_irrefl)
  moreover have "\<And>a. a \<in> set xs \<Longrightarrow> filter (\<lambda>u. u = a) xs = xs"
    unfolding filter_id_conv using assms by metis
  ultimately have "ranks xs = map (\<lambda>a. (real (length xs) + 1) / 2) xs"
    unfolding ranks_def by (intro map_cong) simp_all
  then show ?thesis by (simp add: map_replicate_const)
qed

lemma sum_squares_centred_constant:
  assumes "\<forall>a\<in>set xs. a = c"
  shows "sum_list (map (\<lambda>a. a * a) (centred (ranks xs))) = 0"
  by (simp add: ranks_constant[OF assms] centred_replicate sum_list_replicate)

lemma sum_squares_centred_pos:
  assumes "a \<in> set xs" "b \<in> set xs" "a \<noteq> b"
  shows "0 < sum_list (map (\<lambda>a. a * a) (centred (ranks xs)))"
proof (rule ccontr)
  let ?rs = "ranks xs"
  let ?mu = "sum_list ?rs / real (length ?rs)"
  assume "\<not> 0 < sum_list (map (\<lambda>a. a * a) (centred ?rs))"
  with sum_list_squares_nonneg[of "centred ?rs"]
  have z: "sum_list (map (\<lambda>a. a * a) (centred ?rs)) = 0" by simp
  have "\<forall>v\<in>set (map (\<lambda>a. a * a) (centred ?rs)). v = 0"
    using z by (subst (asm) sum_list_nonneg_eq_0_iff) auto
  then have all0: "\<forall>v\<in>set (centred ?rs). v = 0" by auto
  have eqmu: "?rs ! i = ?mu" if "i < length xs" for i
  proof -
    have "centred ?rs ! i \<in> set (centred ?rs)" using that by simp
    with all0 have "centred ?rs ! i = 0" by blast
    then show ?thesis using that by (simp add: centred_def)
  qed
  from assms obtain i j where ij: "i < length xs" "j < length xs" "xs ! i = a" "xs ! j = b"
    by (metis in_set_conv_nth)
  have "?rs ! i = ?rs ! j" using eqmu[OF ij(1)] eqmu[OF ij(2)] by simp
  moreover have "?rs ! i \<noteq> ?rs ! j"
  proof (cases "a < b")
    case True
    then show ?thesis using ranks_strict_mono[of i xs j] ij by simp
  next
    case False
    with assms(3) have "b < a" by simp
    then show ?thesis using ranks_strict_mono[of j xs i] ij by simp
  qed
  ultimately show False by simp
qed

lemma ranks_comonotone:
  assumes "length xs = length ys"
    and "\<And>i j. i < length xs \<Longrightarrow> j < length xs \<Longrightarrow> (xs ! j < xs ! i \<longleftrightarrow> ys ! j < ys ! i)"
  shows "ranks xs = ranks ys"
proof (rule nth_equalityI)
  show "length (ranks xs) = length (ranks ys)" using assms(1) by simp
next
  fix i assume "i < length (ranks xs)"
  then have i: "i < length xs" by simp
  have lo: "{j. j < length xs \<and> xs ! j < xs ! i} = {j. j < length ys \<and> ys ! j < ys ! i}"
    using assms i by auto
  have eq: "xs ! j = xs ! i \<longleftrightarrow> ys ! j = ys ! i" if "j < length xs" for j
    using assms(2)[OF i that] assms(2)[OF that i] by (metis less_irrefl neqE)
  have k: "{j. j < length xs \<and> xs ! j = xs ! i} = {j. j < length ys \<and> ys ! j = ys ! i}"
    using assms(1) eq by auto
  have i': "i < length ys" using i assms(1) by simp
  have "ranks xs ! i = real (card {j. j < length xs \<and> xs ! j < xs ! i})
                       + (real (card {j. j < length xs \<and> xs ! j = xs ! i}) + 1) / 2"
    by (simp only: ranks_nth[OF i] length_filter_conv_card)
  moreover have "ranks ys ! i = real (card {j. j < length ys \<and> ys ! j < ys ! i})
                       + (real (card {j. j < length ys \<and> ys ! j = ys ! i}) + 1) / 2"
    by (simp only: ranks_nth[OF i'] length_filter_conv_card)
  ultimately show "ranks xs ! i = ranks ys ! i"
    by (simp only: lo k)
qed

lemma ranks_uminus:
  "ranks (map uminus xs) = map (\<lambda>\<rho>. real (length xs) + 1 - \<rho>) (ranks xs)"
proof (rule nth_equalityI)
  show "length (ranks (map uminus xs)) = length (map (\<lambda>\<rho>. real (length xs) + 1 - \<rho>) (ranks xs))"
    by simp
next
  fix i assume "i < length (ranks (map uminus xs))"
  then have i: "i < length xs" by simp
  let ?a = "xs ! i"
  have lo: "length (filter (\<lambda>u. u < - ?a) (map uminus xs)) = length (filter (\<lambda>u. ?a < u) xs)"
    by (simp add: filter_map o_def)
  have k: "length (filter (\<lambda>u. u = - ?a) (map uminus xs)) = length (filter (\<lambda>u. u = ?a) xs)"
    by (simp add: filter_map o_def)
  have "real (length (filter (\<lambda>u. u < ?a) xs)) + real (length (filter (\<lambda>u. u = ?a) xs))
           + real (length (filter (\<lambda>u. ?a < u) xs)) = real (length xs)"
    using filter_trichotomy[of ?a xs] by (metis of_nat_add)
  then show "ranks (map uminus xs) ! i = map (\<lambda>\<rho>. real (length xs) + 1 - \<rho>) (ranks xs) ! i"
    using i by (simp add: ranks_nth lo k field_simps del: length_filter_map)
qed

lemma centred_reflect:
  "centred (map (\<lambda>\<rho>. c - \<rho>) rs) = map uminus (centred rs)"
proof (cases "rs = []")
  case True
  then show ?thesis by (simp add: centred_def)
next
  case False
  have "sum_list (map (\<lambda>\<rho>. c - \<rho>) rs) = real (length rs) * c - sum_list rs"
    by (induction rs) (simp_all add: algebra_simps)
  then have "sum_list (map (\<lambda>\<rho>. c - \<rho>) rs) / real (length rs) = c - sum_list rs / real (length rs)"
    using False by (simp add: field_simps)
  then show ?thesis
    by (simp add: centred_def)
qed

lemma sum_list_map2_self: "sum_list (map2 (*) cs cs) = sum_list (map (\<lambda>a. a * a) (cs :: real list))"
  by (induction cs) simp_all

lemma sum_list_map2_neg:
  "sum_list (map2 (*) cs (map uminus cs)) = - sum_list (map (\<lambda>a. a * a) (cs :: real list))"
  by (induction cs) simp_all

lemma sum_list_squares_neg:
  "sum_list (map (\<lambda>a. a * a) (map uminus cs)) = sum_list (map (\<lambda>a. a * a) (cs :: real list))"
  by (induction cs) simp_all

lemma spearman_corr_constant:
  assumes "length xs = length ys" "3 \<le> length xs"
    and "(\<forall>a\<in>set xs. a = c) \<or> (\<forall>a\<in>set ys. a = c)"
  shows "spearman_corr exact (map Fin xs) (map Fin ys) = Inr NaN"
proof -
  have "sum_list (map (\<lambda>a. a * a) (centred (ranks xs))) = 0
      \<or> sum_list (map (\<lambda>a. a * a) (centred (ranks ys))) = 0"
    using assms(3) sum_squares_centred_constant[of xs c] sum_squares_centred_constant[of ys c]
    by blast
  then have "sqrt (sum_list (map (\<lambda>a. a * a) (centred (ranks xs)))
                 * sum_list (map (\<lambda>a. a * a) (centred (ranks ys)))) = 0"
    by auto
  then show ?thesis
    by (simp add: spearman_corr_exact[OF assms(1,2)] Let_def)
qed

lemma spearman_corr_bounded:
  assumes "length xs = length ys" "3 \<le> length xs"
    and "a \<in> set xs" "a' \<in> set xs" "a \<noteq> a'"
    and "b \<in> set ys" "b' \<in> set ys" "b \<noteq> b'"
  shows "\<exists>\<rho>. spearman_corr exact (map Fin xs) (map Fin ys) = Inr (Fin \<rho>) \<and> - 1 \<le> \<rho> \<and> \<rho> \<le> 1"
proof -
  let ?cx = "centred (ranks xs)" and ?cy = "centred (ranks ys)"
  let ?sxx = "sum_list (map (\<lambda>a. a * a) ?cx)" and ?syy = "sum_list (map (\<lambda>a. a * a) ?cy)"
  let ?sxy = "sum_list (map2 (*) ?cx ?cy)"
  have px: "0 < ?sxx" using assms(3-5) by (rule sum_squares_centred_pos)
  have py: "0 < ?syy" using assms(6-8) by (rule sum_squares_centred_pos)
  have pd: "0 < sqrt (?sxx * ?syy)" using px py by simp
  have "?sxy\<^sup>2 \<le> ?sxx * ?syy"
    by (rule cauchy_schwarz_list) (simp add: assms(1))
  then have "sqrt (?sxy\<^sup>2) \<le> sqrt (?sxx * ?syy)" by (rule real_sqrt_le_mono)
  then have ab: "\<bar>?sxy\<bar> \<le> sqrt (?sxx * ?syy)" by simp
  then have "- sqrt (?sxx * ?syy) \<le> ?sxy" "?sxy \<le> sqrt (?sxx * ?syy)"
    by (simp_all add: abs_le_iff minus_le_iff)
  then have "- 1 \<le> ?sxy / sqrt (?sxx * ?syy) \<and> ?sxy / sqrt (?sxx * ?syy) \<le> 1"
    using pd by (simp add: pos_le_divide_eq pos_divide_le_eq)
  moreover have "spearman_corr exact (map Fin xs) (map Fin ys) = Inr (Fin (?sxy / sqrt (?sxx * ?syy)))"
    using px py by (simp add: spearman_corr_exact[OF assms(1,2)] Let_def)
  ultimately show ?thesis by blast
qed

lemma spearman_corr_same_ranks:
  assumes "length xs = length ys" "3 \<le> length xs"
    and "ranks xs = ranks ys"
    and "a \<in> set xs" "a' \<in> set xs" "a \<noteq> a'"
  shows "spearman_corr exact (map Fin xs) (map Fin ys) = Inr (Fin 1)"
proof -
  let ?cx = "centred (ranks xs)"
  let ?s = "sum_list (map (\<lambda>a. a * a) ?cx)"
  have p: "0 < ?s" using assms(4-6) by (rule sum_squares_centred_pos)
  then have sq: "sqrt (?s * ?s) = ?s" by simp
  show ?thesis
    using p by (simp add: spearman_corr_exact[OF assms(1,2)] Let_def assms(3)[symmetric]
        sum_list_map2_self sq del: real_sqrt_mult_self)
qed

lemma spearman_corr_reflected_ranks:
  assumes "length xs = length ys" "3 \<le> length xs"
    and "centred (ranks ys) = map uminus (centred (ranks xs))"
    and "a \<in> set xs" "a' \<in> set xs" "a \<noteq> a'"
  shows "spearman_corr exact (map Fin xs) (map Fin ys) = Inr (Fin (- 1))"
proof -
  let ?cx = "centred (ranks xs)"
  let ?s = "sum_list (map (\<lambda>a. a * a) ?cx)"
  have p: "0 < ?s" using assms(4-6) by (rule sum_squares_centred_pos)
  then have sq: "sqrt (?s * ?s) = ?s" by simp
  have syy: "sum_list (map (\<lambda>a. a * a) (centred (ranks ys))) = ?s"
    by (simp only: assms(3) sum_list_squares_neg)
  have sxy: "sum_list (map2 (*) ?cx (centred (ranks ys))) = - ?s"
    by (simp only: assms(3) sum_list_map2_neg)
  have "spearman_corr exact (map Fin xs) (map Fin ys)
      = (if sqrt (?s * ?s) = 0 then Inr NaN else Inr (Fin (- ?s / sqrt (?s * ?s))))"
    unfolding spearman_corr_exact[OF assms(1,2)] Let_def by (simp only: syy sxy)
  then show ?thesis
    using p by (simp only: sq) simp
qed

lemma strict_sorted_nth_iff:
  fixes xs :: "real list"
  assumes "sorted_wrt (<) xs" "i < length xs" "j < length xs"
  shows "xs ! j < xs ! i \<longleftrightarrow> j < i"
proof
  assume "j < i"
  then show "xs ! j < xs ! i" using assms(1,2) by (simp add: sorted_wrt_nth_less)
next
  assume l: "xs ! j < xs ! i"
  show "j < i"
  proof (rule ccontr)
    assume "\<not> j < i"
    then consider "i = j" | "i < j" by linarith
    then show False
    proof cases
      case 1
      with l show False by simp
    next
      case 2
      then have "xs ! i < xs ! j" using assms(1,3) by (simp add: sorted_wrt_nth_less)
      with l show False by simp
    qed
  qed
qed

lemma ranks_strict_sorted:
  assumes "sorted_wrt (<) xs" "sorted_wrt (<) ys" "length xs = length ys"
  shows "ranks xs = ranks ys"
proof (rule ranks_comonotone[OF assms(3)])
  fix i j assume "i < length xs" "j < length xs"
  then show "xs ! j < xs ! i \<longleftrightarrow> ys ! j < ys ! i"
    using strict_sorted_nth_iff[OF assms(1), of i j] strict_sorted_nth_iff[OF assms(2), of i j] assms(3)
    by simp
qed

lemma strict_sorted_two_values:
  fixes xs :: "real list"
  assumes "sorted_wrt (<) xs" "2 \<le> length xs"
  shows "xs ! 0 \<in> set xs" "xs ! 1 \<in> set xs" "xs ! 0 \<noteq> xs ! 1"
proof -
  have l: "0 < length xs" "1 < length xs" using assms(2) by auto
  show "xs ! 0 \<in> set xs" "xs ! 1 \<in> set xs" using l by simp_all
  have "xs ! 0 < xs ! 1" using assms(1) l by (simp add: sorted_wrt_nth_less)
  then show "xs ! 0 \<noteq> xs ! 1" by simp
qed

lemma centred_ranks_uminus:
  "centred (ranks (map uminus xs)) = map uminus (centred (ranks xs))"
  by (simp only: ranks_uminus centred_reflect)

lemma sorted_wrt_uminus:
  fixes ys :: "real list"
  shows "sorted_wrt (<) (map uminus ys) \<longleftrightarrow> sorted_wrt (\<lambda>a b. b < a) ys"
  by (simp add: sorted_wrt_map)

lemma Fin_fin_values: "NaN \<notin> set x0 \<Longrightarrow> map Fin (fin_values x0) = x0"
  by (induction x0 rule: fin_values.induct) auto

lemma length_fin_values: "NaN \<notin> set x0 \<Longrightarrow> length (fin_values x0) = length x0"
  by (induction x0 rule: fin_values.induct) auto

lemma strict_fl_sorted_no_NaN:
  assumes "sorted_wrt lt x0" "2 \<le> length x0" "\<And>a. \<not> lt a NaN" "\<And>a. \<not> lt NaN a"
  shows "NaN \<notin> set x0"
proof
  assume "NaN \<in> set x0"
  then obtain i where i: "i < length x0" "x0 ! i = NaN" by (metis in_set_conv_nth)
  define j where "j = (if i = 0 then 1 else (0::nat))"
  have j: "j < length x0" "j \<noteq> i"
    using assms(2) by (auto simp: j_def)
  show False
  proof (cases "i < j")
    case True
    then have "lt (x0 ! i) (x0 ! j)" using assms(1) j(1) by (simp add: sorted_wrt_nth_less)
    with i(2) assms(4) show False by simp
  next
    case False
    with j(2) have "j < i" by simp
    then have "lt (x0 ! j) (x0 ! i)" using assms(1) i(1) by (simp add: sorted_wrt_nth_less)
    with i(2) assms(3) show False by simp
  qed
qed

lemma fl_lt_NaN [simp]: "\<not> fl_lt a NaN" "\<not> fl_lt NaN a"
  by (cases a; simp)+

lemma increasing_fl:
  assumes "sorted_wrt fl_lt x0" "2 \<le> length x0"
  shows "NaN \<notin> set x0" and "sorted_wrt (<) (fin_values x0)"
proof -
  show n: "NaN \<notin> set x0"
    using assms by (rule strict_fl_sorted_no_NaN) simp_all
  have "sorted_wrt fl_lt (map Fin (fin_values x0))"
    using assms(1) Fin_fin_values[OF n] by simp
  then show "sorted_wrt (<) (fin_values x0)"
    by (simp add: sorted_wrt_map)
qed

lemma decreasing_fl:
  assumes "sorted_wrt (\<lambda>a b. fl_lt b a) x0" "2 \<le> length x0"
  shows "NaN \<notin> set x0" and "sorted_wrt (\<lambda>a b. b < a) (fin_values x0)"
proof -
  show n: "NaN \<notin> set x0"
    using assms by (rule strict_fl_sorted_no_NaN) simp_all
  have "sorted_wrt (\<lambda>a b. fl_lt b a) (map Fin (fin_values x0))"
    using assms(1) Fin_fin_values[OF n] by simp
  then show "sorted_wrt (\<lambda>a b. b < a) (fin_values x0)"
    by (simp add: sorted_wrt_map)
qed

lemma spearman_corr_NaN_input_left:
  assumes "length x0 = length y0" "NaN \<in> set x0"
  shows "spearman_corr r x0 y0 = Inr NaN"
proof (cases "length x0 < 3")
  case True
  then show ?thesis by (simp add: spearman_corr_def)
next
  case False
  let ?n = "length x0"
  let ?y = "centre r (rank_average y0)"
  have n: "0 < ?n" using assms(2) by (cases x0) auto
  have x: "centre r (rank_average x0) = replicate ?n NaN"
    using centre_NaN[OF rank_average_NaN[OF assms(2)], of r] by simp
  have ss: "sum_squares r (replicate ?n NaN) = NaN"
    unfolding sum_squares_def by (rule np_sum_NaN) (use n in simp)
  have mul: "np_mul r (replicate ?n NaN) ?y = Inr (replicate ?n NaN)"
    using assms(1) by (simp add: np_mul_def list_eq_iff_nth_eq)
  have sm: "np_sum r (replicate ?n NaN) = NaN"
    by (rule np_sum_NaN) (use n in simp)
  show ?thesis
    using False by (simp add: spearman_corr_def Let_def x ss mul sm)
qed

lemma strict_desc_nth_iff:
  fixes xs :: "real list"
  assumes "sorted_wrt (\<lambda>a b. b < a) xs" "i < length xs" "j < length xs"
  shows "xs ! j < xs ! i \<longleftrightarrow> i < j"
proof -
  have s: "sorted_wrt (<) (map uminus xs)" using assms(1) by (simp add: sorted_wrt_uminus)
  have "map uminus xs ! i < map uminus xs ! j \<longleftrightarrow> i < j"
    by (rule strict_sorted_nth_iff[OF s]) (use assms in simp_all)
  then show ?thesis using assms(2,3) by simp
qed

lemma not_constant_two_values:
  assumes "\<not> (\<exists>c. set x0 \<subseteq> {c})" "NaN \<notin> set x0"
  shows "\<exists>a a'. a \<in> set (fin_values x0) \<and> a' \<in> set (fin_values x0) \<and> a \<noteq> a'"
proof (rule ccontr)
  assume "\<not> ?thesis"
  then have same: "\<And>a a'. a \<in> set (fin_values x0) \<Longrightarrow> a' \<in> set (fin_values x0) \<Longrightarrow> a = a'"
    by blast
  have x0: "set x0 = Fin ` set (fin_values x0)"
    using Fin_fin_values[OF assms(2)] by (metis set_map)
  have "\<exists>c. set x0 \<subseteq> {c}"
  proof (cases "fin_values x0")
    case Nil
    then show ?thesis using x0 by simp
  next
    case (Cons a as)
    then have "set x0 \<subseteq> {Fin a}" using x0 same by auto
    then show ?thesis ..
  qed
  with assms(1) show False ..
qed

lemma strict_desc_two_values:
  fixes xs :: "real list"
  assumes "sorted_wrt (\<lambda>a b. b < a) xs" "2 \<le> length xs"
  shows "xs ! 0 \<in> set xs" "xs ! 1 \<in> set xs" "xs ! 0 \<noteq> xs ! 1"
proof -
  have l: "0 < length xs" "1 < length xs" using assms(2) by auto
  show "xs ! 0 \<in> set xs" "xs ! 1 \<in> set xs" using l by simp_all
  have "xs ! 1 < xs ! 0" using sorted_wrt_nth_less[OF assms(1), of 0 1] l by simp
  then show "xs ! 0 \<noteq> xs ! 1" by simp
qed

lemma spearman_increasing_increasing:
  assumes "length x0 = length y0" "3 \<le> length x0" "sorted_wrt fl_lt x0" "sorted_wrt fl_lt y0"
  shows "spearman_corr exact x0 y0 = Inr (Fin 1)"
proof -
  let ?xs = "fin_values x0" and ?ys = "fin_values y0"
  have two: "2 \<le> length x0" "2 \<le> length y0" using assms(1,2) by simp_all
  note x = increasing_fl[OF assms(3) two(1)] and y = increasing_fl[OF assms(4) two(2)]
  have len: "length ?xs = length ?ys" "3 \<le> length ?xs" "2 \<le> length ?xs"
    using assms(1,2) by (simp_all add: length_fin_values x(1) y(1))
  have "spearman_corr exact (map Fin ?xs) (map Fin ?ys) = Inr (Fin 1)"
    using len(1,2) ranks_strict_sorted[OF x(2) y(2) len(1)]
      strict_sorted_two_values[OF x(2) len(3)]
    by (rule spearman_corr_same_ranks)
  then show ?thesis by (simp only: Fin_fin_values[OF x(1)] Fin_fin_values[OF y(1)])
qed

lemma spearman_decreasing_decreasing:
  assumes "length x0 = length y0" "3 \<le> length x0"
    "sorted_wrt (\<lambda>a b. fl_lt b a) x0" "sorted_wrt (\<lambda>a b. fl_lt b a) y0"
  shows "spearman_corr exact x0 y0 = Inr (Fin 1)"
proof -
  let ?xs = "fin_values x0" and ?ys = "fin_values y0"
  have two: "2 \<le> length x0" "2 \<le> length y0" using assms(1,2) by simp_all
  note x = decreasing_fl[OF assms(3) two(1)] and y = decreasing_fl[OF assms(4) two(2)]
  have len: "length ?xs = length ?ys" "3 \<le> length ?xs" "2 \<le> length ?xs"
    using assms(1,2) by (simp_all add: length_fin_values x(1) y(1))
  have rk: "ranks ?xs = ranks ?ys"
  proof (rule ranks_comonotone[OF len(1)])
    fix i j assume "i < length ?xs" "j < length ?xs"
    then show "?xs ! j < ?xs ! i \<longleftrightarrow> ?ys ! j < ?ys ! i"
      using strict_desc_nth_iff[OF x(2), of i j] strict_desc_nth_iff[OF y(2), of i j] len(1)
      by simp
  qed
  have "spearman_corr exact (map Fin ?xs) (map Fin ?ys) = Inr (Fin 1)"
    using len(1,2) rk strict_desc_two_values[OF x(2) len(3)]
    by (rule spearman_corr_same_ranks)
  then show ?thesis by (simp only: Fin_fin_values[OF x(1)] Fin_fin_values[OF y(1)])
qed

lemma spearman_increasing_decreasing:
  assumes "length x0 = length y0" "3 \<le> length x0"
    "sorted_wrt fl_lt x0" "sorted_wrt (\<lambda>a b. fl_lt b a) y0"
  shows "spearman_corr exact x0 y0 = Inr (Fin (- 1))"
proof -
  let ?xs = "fin_values x0" and ?ys = "fin_values y0"
  have two: "2 \<le> length x0" "2 \<le> length y0" using assms(1,2) by simp_all
  note x = increasing_fl[OF assms(3) two(1)] and y = decreasing_fl[OF assms(4) two(2)]
  have len: "length ?xs = length ?ys" "3 \<le> length ?xs" "2 \<le> length ?xs"
    using assms(1,2) by (simp_all add: length_fin_values x(1) y(1))
  have sy: "sorted_wrt (<) (map uminus ?ys)" using y(2) by (simp add: sorted_wrt_uminus)
  have "ranks ?xs = ranks (map uminus ?ys)"
    by (rule ranks_strict_sorted[OF x(2) sy]) (simp add: len(1))
  then have "centred (ranks ?xs) = map uminus (centred (ranks ?ys))"
    by (simp only: centred_ranks_uminus)
  then have "map uminus (centred (ranks ?xs)) = map uminus (map uminus (centred (ranks ?ys)))"
    by simp
  then have cy: "centred (ranks ?ys) = map uminus (centred (ranks ?xs))"
    by (simp add: o_def)
  have "spearman_corr exact (map Fin ?xs) (map Fin ?ys) = Inr (Fin (- 1))"
    using len(1,2) cy strict_sorted_two_values[OF x(2) len(3)]
    by (rule spearman_corr_reflected_ranks)
  then show ?thesis by (simp only: Fin_fin_values[OF x(1)] Fin_fin_values[OF y(1)])
qed

lemma spearman_decreasing_increasing:
  assumes "length x0 = length y0" "3 \<le> length x0"
    "sorted_wrt (\<lambda>a b. fl_lt b a) x0" "sorted_wrt fl_lt y0"
  shows "spearman_corr exact x0 y0 = Inr (Fin (- 1))"
proof -
  let ?xs = "fin_values x0" and ?ys = "fin_values y0"
  have two: "2 \<le> length x0" "2 \<le> length y0" using assms(1,2) by simp_all
  note x = decreasing_fl[OF assms(3) two(1)] and y = increasing_fl[OF assms(4) two(2)]
  have len: "length ?xs = length ?ys" "3 \<le> length ?xs" "2 \<le> length ?xs"
    using assms(1,2) by (simp_all add: length_fin_values x(1) y(1))
  have sx: "sorted_wrt (<) (map uminus ?xs)" using x(2) by (simp add: sorted_wrt_uminus)
  have "ranks ?ys = ranks (map uminus ?xs)"
    by (rule ranks_strict_sorted[OF y(2) sx]) (simp add: len(1))
  then have cy: "centred (ranks ?ys) = map uminus (centred (ranks ?xs))"
    by (simp only: centred_ranks_uminus)
  have "spearman_corr exact (map Fin ?xs) (map Fin ?ys) = Inr (Fin (- 1))"
    using len(1,2) cy strict_desc_two_values[OF x(2) len(3)]
    by (rule spearman_corr_reflected_ranks)
  then show ?thesis by (simp only: Fin_fin_values[OF x(1)] Fin_fin_values[OF y(1)])
qed

lemma spearman_degenerate:
  assumes "length x0 = length y0"
    and "length x0 < 3 \<or> NaN \<in> set x0 \<or> NaN \<in> set y0
         \<or> (\<exists>c. set x0 \<subseteq> {c}) \<or> (\<exists>c. set y0 \<subseteq> {c})"
  shows "spearman_corr exact x0 y0 = Inr NaN"
proof -
  consider "length x0 < 3" | "NaN \<in> set x0" | "NaN \<in> set y0"
    | "3 \<le> length x0" "NaN \<notin> set x0" "NaN \<notin> set y0" "(\<exists>c. set x0 \<subseteq> {c}) \<or> (\<exists>c. set y0 \<subseteq> {c})"
    using assms(2) by fastforce
  then show ?thesis
  proof cases
    case 1
    then show ?thesis by (simp add: spearman_corr_def)
  next
    case 2
    then show ?thesis using assms(1) by (simp add: spearman_corr_NaN_input_left)
  next
    case 3
    then show ?thesis using assms(1) by (simp add: spearman_corr_NaN_input)
  next
    case 4
    let ?xs = "fin_values x0" and ?ys = "fin_values y0"
    have len: "length ?xs = length ?ys" "3 \<le> length ?xs"
      using assms(1) 4(1) by (simp_all add: length_fin_values 4(2,3))
    have sx: "set x0 = Fin ` set ?xs" using Fin_fin_values[OF 4(2)] by (metis set_map)
    have sy: "set y0 = Fin ` set ?ys" using Fin_fin_values[OF 4(3)] by (metis set_map)
    have "\<exists>c. (\<forall>a\<in>set ?xs. a = c) \<or> (\<forall>a\<in>set ?ys. a = c)"
    proof -
      from 4(4) show ?thesis
      proof
        assume "\<exists>c. set x0 \<subseteq> {c}"
        then obtain c where c: "set x0 \<subseteq> {c}" ..
        have "\<forall>a\<in>set ?xs. a = (case c of Fin v \<Rightarrow> v | NaN \<Rightarrow> 0)"
          using c sx by (auto split: fl.splits)
        then show ?thesis by blast
      next
        assume "\<exists>c. set y0 \<subseteq> {c}"
        then obtain c where c: "set y0 \<subseteq> {c}" ..
        have "\<forall>a\<in>set ?ys. a = (case c of Fin v \<Rightarrow> v | NaN \<Rightarrow> 0)"
          using c sy by (auto split: fl.splits)
        then show ?thesis by blast
      qed
    qed
    then obtain c where "(\<forall>a\<in>set ?xs. a = c) \<or> (\<forall>a\<in>set ?ys. a = c)" ..
    with len have "spearman_corr exact (map Fin ?xs) (map Fin ?ys) = Inr NaN"
      by (rule spearman_corr_constant)
    then show ?thesis by (simp only: Fin_fin_values[OF 4(2)] Fin_fin_values[OF 4(3)])
  qed
qed

lemma spearman_regular:
  assumes "length x0 = length y0"
    and "\<not> (length x0 < 3 \<or> NaN \<in> set x0 \<or> NaN \<in> set y0
         \<or> (\<exists>c. set x0 \<subseteq> {c}) \<or> (\<exists>c. set y0 \<subseteq> {c}))"
  shows "\<exists>\<rho>. spearman_corr exact x0 y0 = Inr (Fin \<rho>) \<and> - 1 \<le> \<rho> \<and> \<rho> \<le> 1"
proof -
  let ?xs = "fin_values x0" and ?ys = "fin_values y0"
  from assms(2) have h: "3 \<le> length x0" "NaN \<notin> set x0" "NaN \<notin> set y0"
    "\<not> (\<exists>c. set x0 \<subseteq> {c})" "\<not> (\<exists>c. set y0 \<subseteq> {c})"
    by auto
  have len: "length ?xs = length ?ys" "3 \<le> length ?xs"
    using assms(1) h(1) by (simp_all add: length_fin_values h(2,3))
  from not_constant_two_values[OF h(4) h(2)] obtain a a'
    where a: "a \<in> set ?xs" "a' \<in> set ?xs" "a \<noteq> a'" by blast
  from not_constant_two_values[OF h(5) h(3)] obtain b b'
    where b: "b \<in> set ?ys" "b' \<in> set ?ys" "b \<noteq> b'" by blast
  have "\<exists>\<rho>. spearman_corr exact (map Fin ?xs) (map Fin ?ys) = Inr (Fin \<rho>) \<and> - 1 \<le> \<rho> \<and> \<rho> \<le> 1"
    using len a b by (rule spearman_corr_bounded)
  then show ?thesis by (simp only: Fin_fin_values[OF h(2)] Fin_fin_values[OF h(3)])
qed

text \<open>
  C2, as amended, in exact arithmetic and for two columns of the same length. The
  estimator returns NaN with fewer than 3 points, when a column holds a NaN, and when a
  column is constant (its ranks then have zero variance and the denominator is zero). In
  every other case it returns a number between -1 and 1. With at least 3 points it
  returns exactly 1 when both columns are strictly increasing, or both strictly
  decreasing, and exactly -1 when one is strictly increasing and the other strictly
  decreasing.
\<close>

theorem spearman_corr_range:
  assumes "length x0 = length y0"
  shows "(length x0 < 3 \<or> NaN \<in> set x0 \<or> NaN \<in> set y0
            \<or> (\<exists>c. set x0 \<subseteq> {c}) \<or> (\<exists>c. set y0 \<subseteq> {c})
          \<longrightarrow> spearman_corr exact x0 y0 = Inr NaN)
       \<and> (\<not> (length x0 < 3 \<or> NaN \<in> set x0 \<or> NaN \<in> set y0
               \<or> (\<exists>c. set x0 \<subseteq> {c}) \<or> (\<exists>c. set y0 \<subseteq> {c}))
          \<longrightarrow> (\<exists>\<rho>. spearman_corr exact x0 y0 = Inr (Fin \<rho>) \<and> - 1 \<le> \<rho> \<and> \<rho> \<le> 1))
       \<and> (3 \<le> length x0 \<and> sorted_wrt fl_lt x0 \<and> sorted_wrt fl_lt y0
          \<longrightarrow> spearman_corr exact x0 y0 = Inr (Fin 1))
       \<and> (3 \<le> length x0 \<and> sorted_wrt (\<lambda>a b. fl_lt b a) x0 \<and> sorted_wrt (\<lambda>a b. fl_lt b a) y0
          \<longrightarrow> spearman_corr exact x0 y0 = Inr (Fin 1))
       \<and> (3 \<le> length x0 \<and> sorted_wrt fl_lt x0 \<and> sorted_wrt (\<lambda>a b. fl_lt b a) y0
          \<longrightarrow> spearman_corr exact x0 y0 = Inr (Fin (- 1)))
       \<and> (3 \<le> length x0 \<and> sorted_wrt (\<lambda>a b. fl_lt b a) x0 \<and> sorted_wrt fl_lt y0
          \<longrightarrow> spearman_corr exact x0 y0 = Inr (Fin (- 1)))"
  using spearman_degenerate[OF assms] spearman_regular[OF assms]
    spearman_increasing_increasing[OF assms] spearman_decreasing_decreasing[OF assms]
    spearman_increasing_decreasing[OF assms] spearman_decreasing_increasing[OF assms]
  by blast

theorem spearman_corr_range_witness:
  "spearman_corr exact [Fin 1, Fin 2, Fin 3] [Fin 10, Fin 20, Fin 30] = Inr (Fin 1)
   \<and> spearman_corr exact [Fin 3, Fin 2, Fin 1] [Fin 30, Fin 20, Fin 10] = Inr (Fin 1)
   \<and> spearman_corr exact [Fin 1, Fin 2, Fin 3] [Fin 30, Fin 20, Fin 10] = Inr (Fin (- 1))
   \<and> spearman_corr exact [Fin 3, Fin 2, Fin 1] [Fin 10, Fin 20, Fin 30] = Inr (Fin (- 1))
   \<and> spearman_corr exact [Fin 1, Fin 2, Fin 3] [Fin 2, Fin 2, Fin 2] = Inr NaN
   \<and> spearman_corr exact [Fin 1, Fin 2] [Fin 3, Fin 4] = Inr NaN
   \<and> spearman_corr exact [Fin 1, Fin 2, Fin 3] [Fin 2, NaN, Fin 1] = Inr NaN
   \<and> (\<exists>\<rho>. spearman_corr exact [Fin 1, Fin 2, Fin 3] [Fin 1, Fin 3, Fin 2] = Inr (Fin \<rho>)
          \<and> - 1 \<le> \<rho> \<and> \<rho> \<le> 1)"
proof -
  let ?up = "[Fin 1, Fin 2, Fin 3]" and ?dn = "[Fin 3, Fin 2, Fin 1]"
  have 1: "spearman_corr exact ?up [Fin 10, Fin 20, Fin 30] = Inr (Fin 1)"
    using spearman_corr_range[of ?up "[Fin 10, Fin 20, Fin 30]"] by simp
  have 2: "spearman_corr exact ?dn [Fin 30, Fin 20, Fin 10] = Inr (Fin 1)"
    using spearman_corr_range[of ?dn "[Fin 30, Fin 20, Fin 10]"] by simp
  have 3: "spearman_corr exact ?up [Fin 30, Fin 20, Fin 10] = Inr (Fin (- 1))"
    using spearman_corr_range[of ?up "[Fin 30, Fin 20, Fin 10]"] by simp
  have 4: "spearman_corr exact ?dn [Fin 10, Fin 20, Fin 30] = Inr (Fin (- 1))"
    using spearman_corr_range[of ?dn "[Fin 10, Fin 20, Fin 30]"] by simp
  have 5: "spearman_corr exact ?up [Fin 2, Fin 2, Fin 2] = Inr NaN"
    using spearman_corr_range[of ?up "[Fin 2, Fin 2, Fin 2]"] by simp
  have 6: "spearman_corr exact [Fin 1, Fin 2] [Fin 3, Fin 4] = Inr NaN"
    using spearman_corr_range[of "[Fin 1, Fin 2]" "[Fin 3, Fin 4]"] by simp
  have 7: "spearman_corr exact ?up [Fin 2, NaN, Fin 1] = Inr NaN"
    using spearman_corr_range[of ?up "[Fin 2, NaN, Fin 1]"] by simp
  have "\<not> (\<exists>c. set ?up \<subseteq> {c})" "\<not> (\<exists>c. set [Fin 1, Fin 3, Fin 2] \<subseteq> {c})"
    by auto
  then have 8: "\<exists>\<rho>. spearman_corr exact ?up [Fin 1, Fin 3, Fin 2] = Inr (Fin \<rho>) \<and> - 1 \<le> \<rho> \<and> \<rho> \<le> 1"
    using spearman_corr_range[of ?up "[Fin 1, Fin 3, Fin 2]"] by simp
  from 1 2 3 4 5 6 7 8 show ?thesis by blast
qed

text \<open>
  The claim as stated leaves out the NaN input: the cycle indices 1, 2, 3 against the
  capacities NaN, 1, 2 are three points, the denominator is NaN and so does not equal
  zero, and the result is NaN, not a number between -1 and 1. A capacity maximum is NaN
  when every capacity of the partition is missing.
\<close>

theorem spearman_nan_capacity_counterexample:
  "length (rank_average [Fin 1, Fin 2, Fin 3]) = 3
   \<and> fsqrt exact (fmul exact (sum_squares exact (centre exact (rank_average [Fin 1, Fin 2, Fin 3])))
                              (sum_squares exact (centre exact (rank_average [NaN, Fin 1, Fin 2]))))
       \<noteq> Fin 0
   \<and> spearman_corr exact [Fin 1, Fin 2, Fin 3] [NaN, Fin 1, Fin 2] = Inr NaN
   \<and> \<not> (\<exists>\<rho>. spearman_corr exact [Fin 1, Fin 2, Fin 3] [NaN, Fin 1, Fin 2] = Inr (Fin \<rho>)
            \<and> - 1 \<le> \<rho> \<and> \<rho> \<le> 1)"
proof -
  have r: "spearman_corr exact [Fin 1, Fin 2, Fin 3] [NaN, Fin 1, Fin 2] = Inr NaN"
    by (rule spearman_corr_NaN_input) simp_all
  have c: "centre exact (rank_average [NaN, Fin 1, Fin 2]) = [NaN, NaN, NaN]"
    using centre_NaN[of "rank_average [NaN, Fin 1, Fin 2]" exact]
    by (simp add: rank_average_def numeral_3_eq_3)
  have d: "fsqrt exact (fmul exact (sum_squares exact (centre exact (rank_average [Fin 1, Fin 2, Fin 3])))
                              (sum_squares exact (centre exact (rank_average [NaN, Fin 1, Fin 2])))) = NaN"
    unfolding c by (simp add: sum_squares_def np_sum_def)
  show ?thesis
    using r d by simp
qed

end
